theory Spec2Isabelle
  imports Complex_Main
begin

section \<open>Numbers and the random source\<close>

text \<open>
  The overlays compute with JavaScript numbers. They are modelled as real numbers:
  arithmetic is exact, there is no rounding on a store into the height map and there
  are no NaN or infinite values. \<open>Math.random()\<close> is a stream of draws that is passed
  through the code explicitly; a draw returns the head of the stream and the rest.
\<close>

type_synonym rng = "nat \<Rightarrow> real"


definition unit_range :: "rng \<Rightarrow> bool" where
  "unit_range g = (\<forall>n. 0 \<le> g n \<and> g n < 1)"

definition js_round :: "real \<Rightarrow> int" where
  \<comment> \<open>\<open>Math.round\<close>: nearest integer, halves towards plus infinity\<close>
  "js_round v = \<lfloor>v + 1 / 2\<rfloor>"

definition digit_char :: "nat \<Rightarrow> char" where
  "digit_char d = ''0123456789'' ! d"

function show_nat :: "nat \<Rightarrow> string" where
  "show_nat n =
     (if n < 10 then [digit_char n]
      else show_nat (n div 10) @ [digit_char (n mod 10)])"
  by pat_completeness auto
termination
  by (relation "measure (\<lambda>n. n)") auto

declare show_nat.simps [simp del]

definition show_int :: "int \<Rightarrow> string" where
  "show_int i = (if i < 0 then CHR ''-'' # show_nat (nat (- i)) else show_nat (nat i))"

section \<open>Fireworks: colour of a particle\<close>

record ColorRGB =
  rgb_r :: real
  rgb_g :: real
  rgb_b :: real

record Palette =
  core :: ColorRGB
  mid :: ColorRGB
  outer :: ColorRGB

datatype Layer = Core | Mid | Outer

record FireworkParticle =
  fp_x :: real
  fp_y :: real
  fp_vx :: real
  fp_vy :: real
  fp_history :: "(real \<times> real) list"
  fp_life :: real
  fp_maxLife :: real
  fp_size :: real
  fp_layer :: Layer
  fp_palette :: Palette

definition PALETTES :: "Palette list" where
  "PALETTES =
     [\<lparr>core = \<lparr>rgb_r = 157, rgb_g = 0, rgb_b = 255\<rparr>,
       mid = \<lparr>rgb_r = 123, rgb_g = 131, rgb_b = 255\<rparr>,
       outer = \<lparr>rgb_r = 255, rgb_g = 215, rgb_b = 0\<rparr>\<rparr>,
      \<lparr>core = \<lparr>rgb_r = 255, rgb_g = 0, rgb_b = 100\<rparr>,
       mid = \<lparr>rgb_r = 0, rgb_g = 255, rgb_b = 255\<rparr>,
       outer = \<lparr>rgb_r = 255, rgb_g = 255, rgb_b = 255\<rparr>\<rparr>,
      \<lparr>core = \<lparr>rgb_r = 0, rgb_g = 50, rgb_b = 255\<rparr>,
       mid = \<lparr>rgb_r = 0, rgb_g = 255, rgb_b = 100\<rparr>,
       outer = \<lparr>rgb_r = 255, rgb_g = 200, rgb_b = 100\<rparr>\<rparr>]"

definition rgb_string :: "int \<Rightarrow> int \<Rightarrow> int \<Rightarrow> string" where
  "rgb_string r g b =
     ''rgb('' @ show_int r @ '', '' @ show_int g @ '', '' @ show_int b @ '')''"

definition blend :: "real \<Rightarrow> real \<Rightarrow> real \<Rightarrow> int" where
  \<comment> \<open>one channel: \<open>Math.round(c1 + (c2 - c1) * ratio)\<close>\<close>
  "blend c1 c2 ratio = js_round (c1 + (c2 - c1) * ratio)"

definition getColor_rgb :: "FireworkParticle \<Rightarrow> real \<Rightarrow> int \<times> int \<times> int" where
  \<comment> \<open>the three rounded channels that \<open>getColor\<close> prints\<close>
  "getColor_rgb p progress =
     (let (c1, c2, ratio) =
            (if progress > 0.6
             then (mid (fp_palette p), core (fp_palette p), (progress - 0.6) / 0.4)
             else (outer (fp_palette p), mid (fp_palette p), progress / 0.6));
          ratio = max 0 (min 1 ratio)
      in (blend (rgb_r c1) (rgb_r c2) ratio,
          blend (rgb_g c1) (rgb_g c2) ratio,
          blend (rgb_b c1) (rgb_b c2) ratio))"

definition getColor :: "FireworkParticle \<Rightarrow> real \<Rightarrow> string" where
  "getColor p progress = (case getColor_rgb p progress of (r, g, b) \<Rightarrow> rgb_string r g b)"

definition css_of :: "ColorRGB \<Rightarrow> string" where
  \<comment> \<open>a palette colour as \<open>getColor\<close> prints it\<close>
  "css_of c = rgb_string (js_round (rgb_r c)) (js_round (rgb_g c)) (js_round (rgb_b c))"

definition color_dist :: "ColorRGB \<Rightarrow> ColorRGB \<Rightarrow> real" where
  \<comment> \<open>largest channel difference of two colours\<close>
  "color_dist c d =
     max \<bar>rgb_r c - rgb_r d\<bar> (max \<bar>rgb_g c - rgb_g d\<bar> \<bar>rgb_b c - rgb_b d\<bar>)"

definition rgb_dist :: "int \<times> int \<times> int \<Rightarrow> ColorRGB \<Rightarrow> real" where
  \<comment> \<open>largest channel difference of printed channels and a colour\<close>
  "rgb_dist t d =
     (case t of (r, g, b) \<Rightarrow>
        max \<bar>real_of_int r - rgb_r d\<bar>
          (max \<bar>real_of_int g - rgb_g d\<bar> \<bar>real_of_int b - rgb_b d\<bar>))"

definition spark :: "Palette \<Rightarrow> FireworkParticle" where
  \<comment> \<open>a particle of a group with the given palette, for concrete evaluation\<close>
  "spark pal = \<lparr>fp_x = 0, fp_y = 0, fp_vx = 1, fp_vy = 1, fp_history = [], fp_life = 40,
                fp_maxLife = 40, fp_size = 2, fp_layer = Mid, fp_palette = pal\<rparr>"

section \<open>Snow: particles, height map and one frame\<close>

text \<open>
  The snow overlay keeps a pool of falling particles and a height map with one cell per
  pixel column (a typed array of length \<open>width\<close>, created with every cell 0 whenever
  the size changes). The canvas context is modelled by the list of calls made on it.
  The effect that owns the frame loop is modelled with a canvas and a 2D context at hand.
\<close>

record SnowParticle =
  sp_x :: real
  sp_y :: real
  sp_vx :: real
  sp_vy :: real
  sp_size :: real
  sp_alpha :: real

datatype DrawOp =
    ClearRect real real real real
  | BeginPath
  | MoveTo real real
  | LineTo real real
  | ClosePath
  | FillStyleGradient real real real real
  | FillStyleWhite real
  | Arc real real real
  | Fill
  | DrawImage "DrawOp list"

record SnowState =
  particles :: "SnowParticle list"
  heightMap :: "real list option"
  rnd :: rng

definition createParticle :: "real \<Rightarrow> real \<Rightarrow> real \<Rightarrow> rng \<Rightarrow> SnowParticle \<times> rng" where
  \<comment> \<open>five draws, in the order of the fields of the object literal\<close>
  "createParticle w h startY g =
     (\<lparr>sp_x = g 0 * w, sp_y = startY, sp_vx = (g 1 - 0.5) * 0.5, sp_vy = 0.8 + g 2 * 1.5,
       sp_size = g 3 * 2 + 1.5, sp_alpha = 0.6 + g 4 * 0.4\<rparr>,
      \<lambda>n. g (n + 5))"



definition resize :: "nat \<Rightarrow> SnowState \<Rightarrow> SnowState" where
  \<comment> \<open>the effect on a change of width or height: a fresh height map, all 0\<close>
  "resize width s = s\<lparr>heightMap := Some (replicate width 0)\<rparr>"

subsection \<open>The height map: decay, smoothing, overflow check, profile\<close>

definition decay_cell :: "nat \<Rightarrow> real list \<Rightarrow> real list" where
  "decay_cell i hMap =
     (if hMap ! i > 0.1
      then (let h1 = hMap[i := hMap ! i - 0.02] in if h1 ! i < 0 then h1[i := 0] else h1)
      else hMap)"

function decay_from :: "nat \<Rightarrow> nat \<Rightarrow> real list \<Rightarrow> real list" where
  "decay_from i width hMap =
     (if i < width then decay_from (i + 4) width (decay_cell i hMap) else hMap)"
  by pat_completeness auto
termination
  by (relation "measure (\<lambda>(i, width, hMap). width - i)") auto

declare decay_from.simps [simp del]

definition decay :: "nat \<Rightarrow> real list \<Rightarrow> real list" where
  "decay width hMap = decay_from 0 width hMap"

definition threshold :: real where
  "threshold = 1.0"

definition settleAmount :: real where
  "settleAmount = 0.4"

definition passes :: nat where
  "passes = 3"

definition transfer :: "nat \<Rightarrow> nat \<Rightarrow> real list \<Rightarrow> real list" where
  \<comment> \<open>\<open>hMap[i] -= settleAmount; hMap[j] += settleAmount\<close>\<close>
  "transfer i j hMap =
     (let h1 = hMap[i := hMap ! i - settleAmount] in h1[j := h1 ! j + settleAmount])"

definition settle_right :: "nat \<Rightarrow> real list \<Rightarrow> real list" where
  "settle_right i hMap =
     (let me = hMap ! i; right = hMap ! (i + 1)
      in if me > right + threshold then transfer i (i + 1) hMap else hMap)"

definition settle_left :: "nat \<Rightarrow> real list \<Rightarrow> real list" where
  "settle_left i hMap =
     (let me = hMap ! i; left = hMap ! (i - 1)
      in if me > left + threshold then transfer i (i - 1) hMap else hMap)"

definition sweep_right :: "nat \<Rightarrow> real list \<Rightarrow> real list" where
  \<comment> \<open>\<open>for (i = 1; i < width - 1; i++)\<close>\<close>
  "sweep_right width hMap = fold settle_right [1..<width - 1] hMap"

definition sweep_left :: "nat \<Rightarrow> real list \<Rightarrow> real list" where
  \<comment> \<open>\<open>for (i = width - 2; i > 0; i--)\<close>\<close>
  "sweep_left width hMap = fold settle_left (rev [1..<width - 1]) hMap"

definition smooth_pass :: "nat \<Rightarrow> real list \<Rightarrow> real list" where
  "smooth_pass width hMap = sweep_left width (sweep_right width hMap)"

definition smooth :: "nat \<Rightarrow> real list \<Rightarrow> real list" where
  "smooth width hMap = fold (\<lambda>pass. smooth_pass width) [0..<passes] hMap"

function overflow_from :: "nat \<Rightarrow> nat \<Rightarrow> real \<Rightarrow> real list \<Rightarrow> bool" where
  "overflow_from i width height hMap =
     (if i < width
      then (if hMap ! i \<ge> height - 10 then True
            else overflow_from (i + 20) width height hMap)
      else False)"
  by pat_completeness auto
termination
  by (relation "measure (\<lambda>(i, width, height, hMap). width - i)") auto

declare overflow_from.simps [simp del]

definition check_overflow :: "nat \<Rightarrow> real \<Rightarrow> real list \<Rightarrow> bool" where
  \<comment> \<open>the value of \<open>shouldClearPile\<close> after the strided check\<close>
  "check_overflow width height hMap = overflow_from 0 width height hMap"

function profile_from :: "nat \<Rightarrow> nat \<Rightarrow> real \<Rightarrow> real list \<Rightarrow> DrawOp list" where
  "profile_from x width height hMap =
     (if x < width
      then (let h = hMap ! x
            in (if h > 0.5 then LineTo (real x) (height - h) else LineTo (real x) height))
           # profile_from (x + 2) width height hMap
      else [])"
  by pat_completeness auto
termination
  by (relation "measure (\<lambda>(x, width, height, hMap). width - x)") auto

declare profile_from.simps [simp del]

definition render_pile :: "nat \<Rightarrow> real \<Rightarrow> real list \<Rightarrow> DrawOp list" where
  "render_pile width height hMap =
     [BeginPath, MoveTo 0 height] @ profile_from 0 width height hMap @
     [LineTo (real width) height, ClosePath,
      FillStyleGradient 0 (height - 150) 0 height, Fill]"

definition field_phase :: "nat \<Rightarrow> real \<Rightarrow> real list option \<Rightarrow> real list option \<times> bool \<times> DrawOp list" where
  \<comment> \<open>steps 1 to 4 of a frame: the new map, \<open>shouldClearPile\<close>, the calls that draw the pile\<close>
  "field_phase width height hm =
     (case hm of
        None \<Rightarrow> (None, False, [])
      | Some hMap \<Rightarrow>
          (let h1 = smooth width (decay width hMap)
           in (Some h1, check_overflow width height h1, render_pile width height h1)))"

definition clear_pile :: "real \<Rightarrow> bool \<Rightarrow> real list option \<Rightarrow> real list option" where
  \<comment> \<open>step 5: \<open>hMap.fill(0)\<close> on a high motion score or an overflow\<close>
  "clear_pile motionScore shouldClearPile hm =
     (if motionScore > 0.3 \<or> shouldClearPile then map_option (map (\<lambda>v. 0)) hm else hm)"

subsection \<open>The particles of a frame\<close>

definition radius :: int where
  "radius = 8"

definition falloff :: "int \<Rightarrow> real" where
  "falloff k =
     (let dist = \<bar>k\<bar>
      in exp (- real_of_int (dist * dist)
                / (2 * (real_of_int radius / 2) * (real_of_int radius / 2))))"

definition deposit_cell :: "nat \<Rightarrow> int \<Rightarrow> real \<Rightarrow> int \<Rightarrow> real list \<Rightarrow> real list" where
  "deposit_cell width pX sz k hMap =
     (let nx = pX + k
      in if nx \<ge> 0 \<and> nx < int width
         then hMap[nat nx := hMap ! nat nx + sz * 0.5 * falloff k]
         else hMap)"

definition deposit :: "nat \<Rightarrow> int \<Rightarrow> real \<Rightarrow> real list \<Rightarrow> real list" where
  \<comment> \<open>\<open>for (k = -radius; k <= radius; k++)\<close>\<close>
  "deposit width pX sz hMap = fold (deposit_cell width pX sz) [- radius..radius] hMap"

type_synonym flakes = "SnowParticle list \<times> real list option \<times> rng \<times> DrawOp list"

definition moved :: "nat \<Rightarrow> SnowParticle \<Rightarrow> SnowParticle" where
  \<comment> \<open>velocity, sine drift and the horizontal wrap\<close>
  "moved width p =
     (let x1 = sp_x p + sp_vx p;
          y1 = sp_y p + sp_vy p;
          x2 = x1 + sin (y1 * 0.02) * 0.5;
          x3 = (if x2 < 0 then real width else x2);
          x4 = (if x3 > real width then 0 else x3)
      in p\<lparr>sp_x := x4, sp_y := y1\<rparr>)"

definition collides :: "nat \<Rightarrow> real \<Rightarrow> real list option \<Rightarrow> SnowParticle \<Rightarrow> bool" where
  \<comment> \<open>both tests of the collision, on the moved particle\<close>
  "collides width height hm p =
     (case hm of
        None \<Rightarrow> False
      | Some hMap \<Rightarrow>
          (let pX = \<lfloor>sp_x p\<rfloor>
           in pX \<ge> 0 \<and> pX < int width \<and> sp_y p \<ge> height - hMap ! nat pX + 2))"

definition currentGroundH :: "real list option \<Rightarrow> int \<Rightarrow> real" where
  \<comment> \<open>\<open>(hMap && hMap[pX]) ? hMap[pX] : 0\<close>; a read outside the array is \<open>undefined\<close>\<close>
  "currentGroundH hm pX =
     (case hm of
        None \<Rightarrow> 0
      | Some hMap \<Rightarrow> if 0 \<le> pX \<and> pX < int (length hMap) then hMap ! nat pX else 0)"

definition step_particle :: "nat \<Rightarrow> real \<Rightarrow> nat \<Rightarrow> flakes \<Rightarrow> flakes" where
  "step_particle width height i st =
     (case st of (ps, hm, g, ops) \<Rightarrow>
        (let p = moved width (ps ! i); pX = \<lfloor>sp_x p\<rfloor>
         in if collides width height hm p
            then (case createParticle (real width) height (- 10) g of (q, g1) \<Rightarrow>
                    (ps[i := q], map_option (deposit width pX (sp_size p)) hm, g1, ops))
            else (case (if sp_y p > height
                        then createParticle (real width) height (- 10) g else (p, g))
                  of (q, g1) \<Rightarrow>
                    (ps[i := q], hm, g1,
                     if sp_y q < height - currentGroundH hm pX
                     then ops @ [FillStyleWhite (sp_alpha q), BeginPath,
                                 Arc (sp_x q) (sp_y q) (sp_size q), Fill]
                     else ops))))"

definition replenish :: "bool \<Rightarrow> nat \<Rightarrow> real \<Rightarrow> SnowParticle list \<times> rng \<Rightarrow> SnowParticle list \<times> rng" where
  "replenish isActive width height pg =
     (case pg of (ps, g) \<Rightarrow>
        if isActive \<and> length ps < 400
        then (case createParticle (real width) height (- 10) g of (p, g1) \<Rightarrow> (ps @ [p], g1))
        else (ps, g))"

definition step_all :: "nat \<Rightarrow> real \<Rightarrow> flakes \<Rightarrow> flakes" where
  \<comment> \<open>\<open>for (i = particles.length - 1; i >= 0; i--)\<close>\<close>
  "step_all width height st =
     (case st of (ps, hm, g, ops) \<Rightarrow>
        fold (step_particle width height) (rev [0..<length ps]) (ps, hm, g, ops))"

definition update :: "bool \<Rightarrow> nat \<Rightarrow> real \<Rightarrow> real \<Rightarrow> SnowState \<Rightarrow> SnowState \<times> DrawOp list" where
  "update isActive width height motionScore s =
     (case field_phase width height (heightMap s) of (hm1, shouldClearPile, pile) \<Rightarrow>
        (let ops1 = ClearRect 0 0 (real width) height # pile;
             hm2 = clear_pile motionScore shouldClearPile hm1
         in if \<not> isActive \<and> particles s = []
            then (s\<lparr>heightMap := hm2\<rparr>, ops1)
            else (case replenish isActive width height (particles s, rnd s) of (ps1, g1) \<Rightarrow>
                    (case step_all width height (ps1, hm2, g1, ops1) of (ps2, hm3, g2, ops2) \<Rightarrow>
                       (\<lparr>particles = ps2, heightMap = hm3, rnd = g2\<rparr>, ops2)))))"

subsection \<open>Runs of the overlay\<close>








subsection \<open>Invariants of the snow state\<close>

definition nonneg :: "real list \<Rightarrow> bool" where
  "nonneg hMap = (\<forall>v \<in> set hMap. 0 \<le> v)"

definition field_ok :: "nat \<Rightarrow> real list option \<Rightarrow> bool" where
  \<comment> \<open>a height map, when there is one, has one cell per column and no negative cell\<close>
  "field_ok width hm = (case hm of None \<Rightarrow> True | Some hMap \<Rightarrow> length hMap = width \<and> nonneg hMap)"

definition sizes_ok :: "SnowParticle list \<Rightarrow> bool" where
  "sizes_ok ps = (\<forall>p \<in> set ps. 0 \<le> sp_size p)"

definition flakes_ok :: "nat \<Rightarrow> flakes \<Rightarrow> bool" where
  "flakes_ok width st =
     (case st of (ps, hm, g, ops) \<Rightarrow> sizes_ok ps \<and> field_ok width hm \<and> unit_range g)"

definition snow_inv :: "nat \<Rightarrow> SnowState \<Rightarrow> bool" where
  "snow_inv width s =
     (sizes_ok (particles s) \<and> field_ok width (heightMap s) \<and> unit_range (rnd s))"

definition shouldClearPile :: "nat \<Rightarrow> real \<Rightarrow> real list option \<Rightarrow> bool" where
  \<comment> \<open>the flag of a frame after step 3\<close>
  "shouldClearPile width height hm = fst (snd (field_phase width height hm))"

definition cleared_field :: "nat \<Rightarrow> real \<Rightarrow> real \<Rightarrow> real list option \<Rightarrow> real list option" where
  \<comment> \<open>the height map of a frame after step 5, before any particle is stepped\<close>
  "cleared_field width height motionScore hm =
     clear_pile motionScore (shouldClearPile width height hm) (fst (field_phase width height hm))"

definition pile_ops :: "nat \<Rightarrow> real \<Rightarrow> real list option \<Rightarrow> DrawOp list" where
  \<comment> \<open>the calls of a frame that draw the pile (step 4)\<close>
  "pile_ops width height hm = snd (snd (field_phase width height hm))"


subsection \<open>Concrete inputs\<close>

definition flake :: SnowParticle where
  "flake = \<lparr>sp_x = 400, sp_y = 300, sp_vx = 0, sp_vy = 1, sp_size = 2, sp_alpha = 0.8\<rparr>"

definition calm :: rng where
  "calm = (\<lambda>n. 1 / 2)"

definition lander :: SnowParticle where
  \<comment> \<open>a flake just above the bottom edge, falling fast\<close>
  "lander = \<lparr>sp_x = 400.5, sp_y = 599.9, sp_vx = 0, sp_vy = 2.2, sp_size = 2, sp_alpha = 0.8\<rparr>"

definition speck :: SnowParticle where
  \<comment> \<open>a flake in the middle of a canvas of width 4 and height 100\<close>
  "speck = \<lparr>sp_x = 2, sp_y = 50, sp_vx = 0, sp_vy = 1, sp_size = 2, sp_alpha = 0.8\<rparr>"

subsection \<open>What happens to one particle in a frame\<close>


definition shifted :: "rng \<Rightarrow> rng \<Rightarrow> bool" where
  \<comment> \<open>the second source is the first after some draws\<close>
  "shifted g g1 = (\<exists>k. g1 = (\<lambda>n. g (n + k)))"



section \<open>Snow: the overlay of components/SnowOverlay.tsx\<close>


definition lg_createParticle :: "real \<Rightarrow> real \<Rightarrow> real \<Rightarrow> rng \<Rightarrow> SnowParticle \<times> rng" where
  "lg_createParticle w h startY g =
     (\<lparr>sp_x = g 0 * w, sp_y = startY, sp_vx = (g 1 - 0.5) * 0.5, sp_vy = 0.4 + g 2 * 1.2,
       sp_size = g 3 * 2 + 1.5, sp_alpha = 0.8 + g 4 * 0.2\<rparr>,
      \<lambda>n. g (n + 5))"



definition lg_deposit_cell :: "nat \<Rightarrow> int \<Rightarrow> real \<Rightarrow> int \<Rightarrow> real list \<Rightarrow> real list" where
  "lg_deposit_cell width pX sz k hMap =
     (let nx = pX + k
      in if nx \<ge> 0 \<and> nx < int width then hMap[nat nx := hMap ! nat nx + sz * 0.5] else hMap)"

definition lg_deposit :: "nat \<Rightarrow> int \<Rightarrow> real \<Rightarrow> real list \<Rightarrow> real list" where
  "lg_deposit width pX sz hMap = fold (lg_deposit_cell width pX sz) [- 2..2] hMap"

definition lg_collides :: "nat \<Rightarrow> real \<Rightarrow> real list option \<Rightarrow> SnowParticle \<Rightarrow> bool" where
  "lg_collides width height hm p =
     (case hm of
        None \<Rightarrow> False
      | Some hMap \<Rightarrow>
          (let pX = \<lfloor>sp_x p\<rfloor>
           in pX \<ge> 0 \<and> pX < int width \<and> sp_y p \<ge> height - hMap ! nat pX - sp_size p))"

definition flake_ops :: "SnowParticle \<Rightarrow> DrawOp list" where
  "flake_ops p = [FillStyleWhite (sp_alpha p), BeginPath, Arc (sp_x p) (sp_y p) (sp_size p), Fill]"

type_synonym lg_flakes =
  "SnowParticle list \<times> real list option \<times> DrawOp list option \<times> rng \<times> DrawOp list"

definition lg_step_particle :: "nat \<Rightarrow> real \<Rightarrow> nat \<Rightarrow> lg_flakes \<Rightarrow> lg_flakes" where
  "lg_step_particle width height i st =
     (case st of (ps, hm, acc, g, ops) \<Rightarrow>
        (let p = moved width (ps ! i); pX = \<lfloor>sp_x p\<rfloor>
         in if lg_collides width height hm p
            then (case lg_createParticle (real width) height (- 10) g of (q, g1) \<Rightarrow>
                    (ps[i := q], map_option (lg_deposit width pX (sp_size p)) hm,
                     map_option (\<lambda>a. a @ flake_ops p) acc, g1, ops))
            else (case (if sp_y p > height
                        then lg_createParticle (real width) height (- 10) g else (p, g))
                  of (q, g1) \<Rightarrow> (ps[i := q], hm, acc, g1, ops @ flake_ops q))))"


section \<open>Frost: mask, strokes and drips\<close>

text \<open>
  The frost overlay erases fog by drawing on an off-screen mask canvas. The mask is
  modelled by the list of shapes filled or stroked on it since it was last cleared,
  each with the alpha of the style in force at the call; the context keeps its styles
  between calls. The effects are modelled with the mask canvas and its context at hand.
  The composition of fog, noise and mask onto the visible canvas reads the mask only
  and is left out.
\<close>

record Drip =
  d_x :: real
  d_y :: real
  d_vx :: real
  d_vy :: real
  d_size :: real
  d_life :: real

datatype Shape =
    Disc real real real
  | RoundLine real real real real real

datatype MaskOp = Paint Shape real

record FrostState =
  maskOps :: "MaskOp list"
  fillStyle :: real
  strokeStyle :: real
  lineWidth :: real
  drips :: "Drip list"
  lastPoint :: "(real \<times> real) option"
  frnd :: rng

definition brushSize :: real where
  "brushSize = 12"

definition frost_reset :: "FrostState \<Rightarrow> FrostState" where
  \<comment> \<open>the effect on a change of size or of the reset key: setting the size of the mask
      canvas clears it and resets its context; drips and last point are dropped\<close>
  "frost_reset s =
     s\<lparr>maskOps := [], fillStyle := 1, strokeStyle := 1, lineWidth := 1,
       drips := [], lastPoint := None\<rparr>"

definition frost_input :: "(real \<times> real) option \<Rightarrow> FrostState \<Rightarrow> FrostState" where
  \<comment> \<open>the effect on a change of the drawing point\<close>
  "frost_input drawingPoint s =
     (case drawingPoint of
        Some (px, py) \<Rightarrow>
          (let s1 = s\<lparr>lineWidth := brushSize * 2, fillStyle := 1, strokeStyle := 1\<rparr>;
               s2 = (case lastPoint s1 of
                       Some (lx, ly) \<Rightarrow>
                         s1\<lparr>maskOps := maskOps s1 @
                              [Paint (RoundLine lx ly px py (lineWidth s1)) (strokeStyle s1)]\<rparr>
                     | None \<Rightarrow>
                         s1\<lparr>maskOps := maskOps s1 @
                              [Paint (Disc px py brushSize) (fillStyle s1)]\<rparr>)
           in s2\<lparr>lastPoint := Some (px, py)\<rparr>)
      | None \<Rightarrow>
          (let s1 = (case lastPoint s of
                       Some (endX, endY) \<Rightarrow>
                         (let g = frnd s
                          in if g 0 < 0.4
                             then s\<lparr>drips := drips s @
                                       [\<lparr>d_x = endX + (g 1 - 0.5) * brushSize, d_y = endY,
                                         d_vx = 0, d_vy = 0.5 + g 2 * 1.5,
                                         d_size = 1.0 + g 3 * 1.5, d_life = 20 + g 4 * 30\<rparr>],
                                    frnd := (\<lambda>n. g (n + 5))\<rparr>
                             else s\<lparr>frnd := (\<lambda>n. g (n + 1))\<rparr>)
                     | None \<Rightarrow> s)
           in s1\<lparr>lastPoint := None\<rparr>))"

definition step_drip :: "real \<Rightarrow> nat \<Rightarrow> FrostState \<Rightarrow> FrostState" where
  \<comment> \<open>one turn of the loop over the drips: move, wiggle, stamp the trail, age, remove\<close>
  "step_drip height i s =
     (let drip = drips s ! i;
          g = frnd s;
          x1 = d_x drip + d_vx drip;
          y1 = d_y drip + d_vy drip;
          wiggle = (g 0 < 0.1);
          vx1 = (if wiggle then (g 1 - 0.5) * 0.5 else d_vx drip);
          g1 = (if wiggle then (\<lambda>n. g (n + 2)) else (\<lambda>n. g (n + 1)));
          life1 = d_life drip - 1;
          drip1 = drip\<lparr>d_x := x1, d_y := y1, d_vx := vx1, d_life := life1\<rparr>;
          ds = (drips s)[i := drip1]
      in s\<lparr>maskOps := maskOps s @ [Paint (Disc x1 y1 (d_size drip)) (fillStyle s)],
           drips := (if life1 \<le> 0 \<or> y1 > height then take i ds @ drop (Suc i) ds else ds),
           frnd := g1\<rparr>)"

definition frost_frame :: "real \<Rightarrow> FrostState \<Rightarrow> FrostState" where
  \<comment> \<open>part A of \<open>render\<close>: the physics of the drips, drawn on the mask\<close>
  "frost_frame height s =
     (if length (drips s) > 0
      then fold (step_drip height) (rev [0..<length (drips s)]) (s\<lparr>fillStyle := 0.8\<rparr>)
      else s)"

datatype FrostEvent =
    Input "(real \<times> real) option"
  | Tick

fun frost_event :: "real \<Rightarrow> FrostEvent \<Rightarrow> FrostState \<Rightarrow> FrostState" where
  "frost_event height (Input drawingPoint) s = frost_input drawingPoint s"
| "frost_event height Tick s = frost_frame height s"

definition frost_mounted :: "rng \<Rightarrow> FrostState" where
  \<comment> \<open>the overlay after its mount: mask cleared, no drips, no last point\<close>
  "frost_mounted g =
     \<lparr>maskOps = [], fillStyle = 1, strokeStyle = 1, lineWidth = 1, drips = [],
      lastPoint = None, frnd = g\<rparr>"

subsection \<open>The opacity of the mask\<close>

text \<open>
  A call composites its shape onto the mask with the default operation
  \<open>source-over\<close>, which no call on the mask context changes: at a pixel covered to the
  fraction \<open>c\<close> by a shape drawn with alpha \<open>a\<close>, the opacity \<open>m\<close> becomes
  \<open>a * c + m * (1 - a * c)\<close>. The coverage of a pixel by a shape is the rasteriser's
  and is a parameter.
\<close>

type_synonym pixel = "int \<times> int"

type_synonym coverage = "Shape \<Rightarrow> pixel \<Rightarrow> real"

fun paint :: "coverage \<Rightarrow> MaskOp \<Rightarrow> (pixel \<Rightarrow> real) \<Rightarrow> (pixel \<Rightarrow> real)" where
  "paint cov (Paint shape a) m = (\<lambda>px. a * cov shape px + m px * (1 - a * cov shape px))"

definition opacity :: "coverage \<Rightarrow> MaskOp list \<Rightarrow> pixel \<Rightarrow> real" where
  \<comment> \<open>the mask after the calls, from the cleared (transparent) canvas\<close>
  "opacity cov ops = fold (paint cov) ops (\<lambda>px. 0)"

definition coverage_ok :: "coverage \<Rightarrow> bool" where
  "coverage_ok cov = (\<forall>shape px. 0 \<le> cov shape px \<and> cov shape px \<le> 1)"

definition strokes :: "MaskOp list \<Rightarrow> MaskOp list" where
  \<comment> \<open>the connecting lines among the calls\<close>
  "strokes ops = filter (\<lambda>op. case op of Paint (RoundLine x0 y0 x1 y1 w) a \<Rightarrow> True | _ \<Rightarrow> False) ops"

definition full_disc :: coverage where
  \<comment> \<open>a rasteriser without anti-aliasing that covers the pixels whose corner lies in a disc,
      and no pixel of a line; for concrete evaluation\<close>
  "full_disc shape px =
     (case shape of
        Disc cx cy r \<Rightarrow>
          (if (real_of_int (fst px) - cx)\<^sup>2 + (real_of_int (snd px) - cy)\<^sup>2 \<le> r\<^sup>2 then 1 else 0)
      | RoundLine x0 y0 x1 y1 w \<Rightarrow> 0)"

fun op_alpha :: "MaskOp \<Rightarrow> real" where
  "op_alpha (Paint shape a) = a"

definition alphas_ok :: "MaskOp list \<Rightarrow> bool" where
  "alphas_ok ops = (\<forall>op \<in> set ops. 0 \<le> op_alpha op \<and> op_alpha op \<le> 1)"

definition gesture :: "FrostEvent list" where
  \<comment> \<open>the drawing points (10,10), (20,10), then none\<close>
  "gesture = [Input (Some (10, 10)), Input (Some (20, 10)), Input None]"

definition end_drip :: "rng \<Rightarrow> Drip" where
  \<comment> \<open>the drip spawned at the end of the gesture from the draws after the first\<close>
  "end_drip g =
     \<lparr>d_x = 20 + (g 1 - 0.5) * 12, d_y = 10, d_vx = 0, d_vy = 0.5 + g 2 * 1.5,
      d_size = 1 + g 3 * 1.5, d_life = 20 + g 4 * 30\<rparr>"

definition dotted :: FrostState where
  "dotted = frost_input (Some (10, 10)) (frost_mounted calm)"

section \<open>Fireworks: properties of the colour\<close>

lemma blend_one: "blend c1 c2 1 = js_round c2"
  by (simp add: blend_def)

lemma blend_zero: "blend c1 c2 0 = js_round c1"
  by (simp add: blend_def)

lemma blend_near:
  assumes "0 \<le> t"
  shows "\<bar>real_of_int (blend c1 c2 t) - c1\<bar> \<le> \<bar>c2 - c1\<bar> * t + 1 / 2"
proof -
  define v where "v = c1 + (c2 - c1) * t"
  have "\<bar>real_of_int \<lfloor>v + 1 / 2\<rfloor> - v\<bar> \<le> 1 / 2"
    by linarith
  moreover have "\<bar>v - c1\<bar> = \<bar>c2 - c1\<bar> * t"
    using assms by (simp add: v_def abs_mult)
  ultimately show ?thesis
    unfolding blend_def js_round_def v_def by linarith
qed

lemma getColor_fresh: "getColor p 1 = css_of (core (fp_palette p))"
  by (simp add: getColor_def getColor_rgb_def css_of_def blend_one)

lemma getColor_boundary: "getColor p 0.6 = css_of (mid (fp_palette p))"
  by (simp add: getColor_def getColor_rgb_def css_of_def blend_one)

lemma getColor_dead: "getColor p 0 = css_of (outer (fp_palette p))"
  by (simp add: getColor_def getColor_rgb_def css_of_def blend_zero)

lemma getColor_rgb_low:
  assumes "0 \<le> progress" "progress \<le> 0.6"
  shows "getColor_rgb p progress =
     (blend (rgb_r (outer (fp_palette p))) (rgb_r (mid (fp_palette p))) (progress / 0.6),
      blend (rgb_g (outer (fp_palette p))) (rgb_g (mid (fp_palette p))) (progress / 0.6),
      blend (rgb_b (outer (fp_palette p))) (rgb_b (mid (fp_palette p))) (progress / 0.6))"
  using assms by (simp add: getColor_rgb_def Let_def max_def min_def)

lemma getColor_rgb_near_outer:
  assumes "0 \<le> progress" "progress \<le> 0.6"
  shows "rgb_dist (getColor_rgb p progress) (outer (fp_palette p))
           \<le> color_dist (mid (fp_palette p)) (outer (fp_palette p)) * (progress / 0.6) + 1 / 2"
proof -
  let ?o = "outer (fp_palette p)" and ?m = "mid (fp_palette p)"
  let ?t = "progress / 0.6"
  let ?D = "color_dist ?m ?o"
  have t: "0 \<le> ?t" using assms by simp
  have step: "\<bar>real_of_int (blend a c ?t) - a\<bar> \<le> ?D * ?t + 1 / 2" if "\<bar>c - a\<bar> \<le> ?D" for a c
  proof -
    have "\<bar>real_of_int (blend a c ?t) - a\<bar> \<le> \<bar>c - a\<bar> * ?t + 1 / 2"
      by (rule blend_near [OF t])
    moreover have "\<bar>c - a\<bar> * ?t \<le> ?D * ?t"
      by (rule mult_right_mono [OF that t])
    ultimately show ?thesis by linarith
  qed
  have d: "\<bar>rgb_r ?m - rgb_r ?o\<bar> \<le> ?D" "\<bar>rgb_g ?m - rgb_g ?o\<bar> \<le> ?D" "\<bar>rgb_b ?m - rgb_b ?o\<bar> \<le> ?D"
    by (simp_all add: color_dist_def)
  have "\<bar>real_of_int (blend (rgb_r ?o) (rgb_r ?m) ?t) - rgb_r ?o\<bar> \<le> ?D * ?t + 1 / 2"
    and "\<bar>real_of_int (blend (rgb_g ?o) (rgb_g ?m) ?t) - rgb_g ?o\<bar> \<le> ?D * ?t + 1 / 2"
    and "\<bar>real_of_int (blend (rgb_b ?o) (rgb_b ?m) ?t) - rgb_b ?o\<bar> \<le> ?D * ?t + 1 / 2"
    using d by (simp_all only: step)
  then show ?thesis
    unfolding getColor_rgb_low [OF assms] rgb_dist_def by simp
qed

text \<open>
  Claim C1, as amended. The colour of a particle at normalised remaining life 1 is the
  core colour of its palette (the claim says the mid colour); at exactly 0.6, the boundary
  of the two segments, it is the mid colour; at 0 it is the outer colour, and for a
  remaining life between 0 and 0.6 every printed channel is within
  \<open>color_dist mid outer * (progress / 0.6) + 1/2\<close> of the outer colour's channel, so
  the colour approaches the outer colour as the remaining life approaches 0.
\<close>

theorem getColor_aging:
  "getColor p 1 = css_of (core (fp_palette p)) \<and>
   getColor p 0.6 = css_of (mid (fp_palette p)) \<and>
   getColor p 0 = css_of (outer (fp_palette p)) \<and>
   (0 \<le> progress \<and> progress \<le> 0.6 \<longrightarrow>
      rgb_dist (getColor_rgb p progress) (outer (fp_palette p))
        \<le> color_dist (mid (fp_palette p)) (outer (fp_palette p)) * (progress / 0.6) + 1 / 2)"
  using getColor_fresh getColor_boundary getColor_dead getColor_rgb_near_outer by blast

theorem getColor_aging_witness:
  "getColor (spark (PALETTES ! 0)) 1 = ''rgb(157, 0, 255)'' \<and>
   getColor (spark (PALETTES ! 0)) 0.6 = ''rgb(123, 131, 255)'' \<and>
   getColor (spark (PALETTES ! 0)) 0 = ''rgb(255, 215, 0)'' \<and>
   rgb_dist (getColor_rgb (spark (PALETTES ! 0)) 0.3) (outer (PALETTES ! 0)) \<le> 128"
  using getColor_aging [of "spark (PALETTES ! 0)" "0.3"]
  by (simp add: css_of_def spark_def PALETTES_def color_dist_def js_round_def rgb_string_def
      show_int_def show_nat.simps digit_char_def)

text \<open>
  Claim C1 as stated fails: a freshly spawned particle of the first palette is printed
  in the core colour, which differs from the mid colour.
\<close>

theorem getColor_fresh_counterexample:
  "getColor (spark (PALETTES ! 0)) 1 \<noteq> css_of (mid (PALETTES ! 0))"
  by (simp add: getColor_def getColor_rgb_def css_of_def spark_def PALETTES_def blend_def
      js_round_def rgb_string_def show_int_def show_nat.simps digit_char_def)

section \<open>Snow: the smoothing passes keep the total height\<close>

lemma length_decay_cell [simp]: "length (decay_cell i hMap) = length hMap"
  by (simp add: decay_cell_def Let_def)

lemma length_decay_from [simp]: "length (decay_from i width hMap) = length hMap"
  by (induction i width hMap rule: decay_from.induct) (subst decay_from.simps, simp)

lemma length_decay [simp]: "length (decay width hMap) = length hMap"
  by (simp add: decay_def)

lemma length_transfer [simp]: "length (transfer i j hMap) = length hMap"
  by (simp add: transfer_def Let_def)

lemma length_settle_right [simp]: "length (settle_right i hMap) = length hMap"
  by (simp add: settle_right_def Let_def)

lemma length_settle_left [simp]: "length (settle_left i hMap) = length hMap"
  by (simp add: settle_left_def Let_def)

lemma length_fold_settle_right [simp]: "length (fold settle_right is hMap) = length hMap"
  by (induction "is" arbitrary: hMap) simp_all

lemma length_fold_settle_left [simp]: "length (fold settle_left is hMap) = length hMap"
  by (induction "is" arbitrary: hMap) simp_all

lemma length_sweep_right [simp]: "length (sweep_right width hMap) = length hMap"
  by (simp add: sweep_right_def)

lemma length_sweep_left [simp]: "length (sweep_left width hMap) = length hMap"
  by (simp add: sweep_left_def)

lemma length_smooth_pass [simp]: "length (smooth_pass width hMap) = length hMap"
  by (simp add: smooth_pass_def)

lemma length_fold_smooth_pass [simp]:
  "length (fold (\<lambda>pass. smooth_pass width) ns hMap) = length hMap"
  by (induction ns arbitrary: hMap) simp_all

lemma length_smooth [simp]: "length (smooth width hMap) = length hMap"
  by (simp add: smooth_def)

lemma sum_list_update_real:
  fixes xs :: "real list"
  shows "i < length xs \<Longrightarrow> sum_list (xs[i := v]) = sum_list xs - xs ! i + v"
proof (induction xs arbitrary: i)
  case Nil
  then show ?case by simp
next
  case (Cons a xs)
  then show ?case by (cases i) simp_all
qed

lemma sum_list_transfer:
  assumes "i < length hMap" "j < length hMap" "i \<noteq> j"
  shows "sum_list (transfer i j hMap) = sum_list hMap"
  using assms by (simp add: transfer_def Let_def sum_list_update_real)

lemma sum_list_settle_right:
  "i + 1 < length hMap \<Longrightarrow> sum_list (settle_right i hMap) = sum_list hMap"
  by (simp add: settle_right_def Let_def sum_list_transfer)

lemma sum_list_settle_left:
  "0 < i \<Longrightarrow> i < length hMap \<Longrightarrow> sum_list (settle_left i hMap) = sum_list hMap"
  by (simp add: settle_left_def Let_def sum_list_transfer)

lemma sum_list_fold_settle_right:
  "\<forall>i \<in> set is. i + 1 < length hMap \<Longrightarrow> sum_list (fold settle_right is hMap) = sum_list hMap"
  by (induction "is" arbitrary: hMap) (simp_all add: sum_list_settle_right)

lemma sum_list_fold_settle_left:
  "\<forall>i \<in> set is. 0 < i \<and> i < length hMap \<Longrightarrow>
     sum_list (fold settle_left is hMap) = sum_list hMap"
  by (induction "is" arbitrary: hMap) (simp_all add: sum_list_settle_left)

lemma sum_list_sweep_right:
  assumes "length hMap = width"
  shows "sum_list (sweep_right width hMap) = sum_list hMap"
proof -
  have "\<forall>i \<in> set [1..<width - 1]. i + 1 < length hMap"
    using assms by auto
  then show ?thesis
    unfolding sweep_right_def by (rule sum_list_fold_settle_right)
qed

lemma sum_list_sweep_left:
  assumes "length hMap = width"
  shows "sum_list (sweep_left width hMap) = sum_list hMap"
proof -
  have "\<forall>i \<in> set (rev [1..<width - 1]). 0 < i \<and> i < length hMap"
    using assms by auto
  then show ?thesis
    unfolding sweep_left_def by (rule sum_list_fold_settle_left)
qed

lemma sum_list_smooth_pass:
  "length hMap = width \<Longrightarrow> sum_list (smooth_pass width hMap) = sum_list hMap"
  by (simp add: smooth_pass_def sum_list_sweep_left sum_list_sweep_right)

lemma sum_list_fold_smooth_pass:
  "length hMap = width \<Longrightarrow>
     sum_list (fold (\<lambda>pass. smooth_pass width) ns hMap) = sum_list hMap"
  by (induction ns arbitrary: hMap) (simp_all add: sum_list_smooth_pass)

lemma sum_list_smooth:
  "length hMap = width \<Longrightarrow> sum_list (smooth width hMap) = sum_list hMap"
  by (simp add: smooth_def sum_list_fold_smooth_pass)

lemma transfer_nth:
  assumes "i < length hMap" "j < length hMap" "i \<noteq> j"
  shows "transfer i j hMap ! i = hMap ! i - settleAmount"
    and "transfer i j hMap ! j = hMap ! j + settleAmount"
    and "k \<noteq> i \<Longrightarrow> k \<noteq> j \<Longrightarrow> transfer i j hMap ! k = hMap ! k"
  using assms by (simp_all add: transfer_def Let_def)


lemma settle_right_cases:
  "settle_right i hMap = hMap \<or>
   settle_right i hMap =
     hMap[i := hMap ! i - settleAmount, i + 1 := hMap ! (i + 1) + settleAmount]"
  by (simp add: settle_right_def transfer_def Let_def)

lemma settle_left_cases:
  "0 < i \<Longrightarrow>
   settle_left i hMap = hMap \<or>
   settle_left i hMap =
     hMap[i := hMap ! i - settleAmount, i - 1 := hMap ! (i - 1) + settleAmount]"
  by (simp add: settle_left_def transfer_def Let_def)

section \<open>Snow: no operation makes a cell negative\<close>

lemma nonneg_update: "nonneg hMap \<Longrightarrow> 0 \<le> v \<Longrightarrow> nonneg (hMap[i := v])"
  unfolding nonneg_def using set_update_subset_insert [of hMap i v] by auto

lemma nonneg_nth: "nonneg hMap \<Longrightarrow> i < length hMap \<Longrightarrow> 0 \<le> hMap ! i"
  by (simp add: nonneg_def)

lemma nonneg_decay_cell: "nonneg hMap \<Longrightarrow> nonneg (decay_cell i hMap)"
  by (cases "i < length hMap") (auto simp: decay_cell_def Let_def intro!: nonneg_update)

lemma nonneg_decay_from: "nonneg hMap \<Longrightarrow> nonneg (decay_from i width hMap)"
proof (induction i width hMap rule: decay_from.induct)
  case (1 i width hMap)
  then show ?case
    by (subst decay_from.simps) (simp add: nonneg_decay_cell)
qed

lemma nonneg_decay: "nonneg hMap \<Longrightarrow> nonneg (decay width hMap)"
  by (simp add: decay_def nonneg_decay_from)

lemma nonneg_transfer:
  assumes "nonneg hMap" "i < length hMap" "j < length hMap" "i \<noteq> j"
    and "hMap ! i > hMap ! j + threshold"
  shows "nonneg (transfer i j hMap)"
proof -
  have "0 \<le> hMap ! j" using assms by (simp add: nonneg_nth)
  then have "0 \<le> hMap ! i - settleAmount" "0 \<le> hMap ! j + settleAmount"
    using assms(5) by (simp_all add: threshold_def settleAmount_def)
  then show ?thesis
    using assms by (simp add: transfer_def Let_def nonneg_update)
qed

lemma nonneg_settle_right:
  "nonneg hMap \<Longrightarrow> i + 1 < length hMap \<Longrightarrow> nonneg (settle_right i hMap)"
  by (simp add: settle_right_def Let_def nonneg_transfer)

lemma nonneg_settle_left:
  "nonneg hMap \<Longrightarrow> 0 < i \<Longrightarrow> i < length hMap \<Longrightarrow> nonneg (settle_left i hMap)"
  by (simp add: settle_left_def Let_def nonneg_transfer)

lemma nonneg_fold_settle_right:
  "nonneg hMap \<Longrightarrow> \<forall>i \<in> set is. i + 1 < length hMap \<Longrightarrow> nonneg (fold settle_right is hMap)"
  by (induction "is" arbitrary: hMap) (simp_all add: nonneg_settle_right)

lemma nonneg_fold_settle_left:
  "nonneg hMap \<Longrightarrow> \<forall>i \<in> set is. 0 < i \<and> i < length hMap \<Longrightarrow>
     nonneg (fold settle_left is hMap)"
  by (induction "is" arbitrary: hMap) (simp_all add: nonneg_settle_left)

lemma nonneg_sweep_right:
  assumes "nonneg hMap" "length hMap = width"
  shows "nonneg (sweep_right width hMap)"
proof -
  have "\<forall>i \<in> set [1..<width - 1]. i + 1 < length hMap"
    using assms by auto
  with assms(1) show ?thesis
    unfolding sweep_right_def by (rule nonneg_fold_settle_right)
qed

lemma nonneg_sweep_left:
  assumes "nonneg hMap" "length hMap = width"
  shows "nonneg (sweep_left width hMap)"
proof -
  have "\<forall>i \<in> set (rev [1..<width - 1]). 0 < i \<and> i < length hMap"
    using assms by auto
  with assms(1) show ?thesis
    unfolding sweep_left_def by (rule nonneg_fold_settle_left)
qed

lemma nonneg_smooth_pass:
  "nonneg hMap \<Longrightarrow> length hMap = width \<Longrightarrow> nonneg (smooth_pass width hMap)"
  by (simp add: smooth_pass_def nonneg_sweep_left nonneg_sweep_right)

lemma nonneg_fold_smooth_pass:
  "nonneg hMap \<Longrightarrow> length hMap = width \<Longrightarrow>
     nonneg (fold (\<lambda>pass. smooth_pass width) ns hMap)"
  by (induction ns arbitrary: hMap) (simp_all add: nonneg_smooth_pass)

lemma nonneg_smooth:
  "nonneg hMap \<Longrightarrow> length hMap = width \<Longrightarrow> nonneg (smooth width hMap)"
  by (simp add: smooth_def nonneg_fold_smooth_pass)

lemma falloff_pos: "0 < falloff k"
  by (simp add: falloff_def Let_def)

lemma length_deposit_cell [simp]: "length (deposit_cell width pX sz k hMap) = length hMap"
  by (simp add: deposit_cell_def Let_def)

lemma length_fold_deposit_cell [simp]:
  "length (fold (deposit_cell width pX sz) ks hMap) = length hMap"
  by (induction ks arbitrary: hMap) simp_all

lemma length_deposit [simp]: "length (deposit width pX sz hMap) = length hMap"
  by (simp add: deposit_def)

lemma nonneg_deposit_cell:
  assumes "nonneg hMap" "length hMap = width" "0 \<le> sz"
  shows "nonneg (deposit_cell width pX sz k hMap)"
proof -
  have "0 \<le> sz * 0.5 * falloff k"
    using assms(3) falloff_pos [of k] by simp
  moreover have "0 \<le> hMap ! nat (pX + k)" if "0 \<le> pX + k" "pX + k < int width"
    using that assms by (simp add: nonneg_nth)
  ultimately show ?thesis
    using assms(1) by (auto simp: deposit_cell_def Let_def intro!: nonneg_update)
qed

lemma nonneg_fold_deposit_cell:
  "nonneg hMap \<Longrightarrow> length hMap = width \<Longrightarrow> 0 \<le> sz \<Longrightarrow>
     nonneg (fold (deposit_cell width pX sz) ks hMap)"
  by (induction ks arbitrary: hMap) (simp_all add: nonneg_deposit_cell)

lemma nonneg_deposit:
  "nonneg hMap \<Longrightarrow> length hMap = width \<Longrightarrow> 0 \<le> sz \<Longrightarrow> nonneg (deposit width pX sz hMap)"
  by (simp add: deposit_def nonneg_fold_deposit_cell)

lemma nonneg_fill: "nonneg (map (\<lambda>v. 0) hMap)"
  by (auto simp: nonneg_def)

section \<open>Snow: one frame keeps the invariants\<close>

lemma unit_range_shift: "unit_range g \<Longrightarrow> unit_range (\<lambda>n. g (n + k))"
  by (simp add: unit_range_def)


lemma createParticle_rng: "unit_range g \<Longrightarrow> unit_range (snd (createParticle w h y0 g))"
  by (simp add: createParticle_def unit_range_shift)

lemma createParticle_size: "unit_range g \<Longrightarrow> 0 \<le> sp_size (fst (createParticle w h y0 g))"
  by (simp add: createParticle_def unit_range_def add_nonneg_nonneg)

lemma sizes_ok_update: "sizes_ok ps \<Longrightarrow> 0 \<le> sp_size q \<Longrightarrow> sizes_ok (ps[i := q])"
  unfolding sizes_ok_def using set_update_subset_insert [of ps i q] by auto

lemma sizes_ok_snoc: "sizes_ok ps \<Longrightarrow> 0 \<le> sp_size q \<Longrightarrow> sizes_ok (ps @ [q])"
  by (simp add: sizes_ok_def)

lemma moved_size [simp]: "sp_size (moved width p) = sp_size p"
  by (simp add: moved_def Let_def)

lemma field_ok_deposit:
  "field_ok width hm \<Longrightarrow> 0 \<le> sz \<Longrightarrow> field_ok width (map_option (deposit width pX sz) hm)"
  by (cases hm) (simp_all add: field_ok_def nonneg_deposit)

lemma field_ok_clear_pile:
  "field_ok width hm \<Longrightarrow> field_ok width (clear_pile motionScore c hm)"
  by (cases hm) (simp_all add: field_ok_def clear_pile_def nonneg_fill)

lemma field_ok_field_phase:
  "field_ok width hm \<Longrightarrow> field_ok width (fst (field_phase width height hm))"
  by (cases hm) (simp_all add: field_ok_def field_phase_def Let_def nonneg_smooth nonneg_decay)

lemma length_step_particle [simp]:
  "length (fst (step_particle width height i st)) = length (fst st)"
  by (cases st) (simp add: step_particle_def Let_def split: prod.splits)

lemma flakes_ok_step_particle:
  assumes "flakes_ok width st" "i < length (fst st)"
  shows "flakes_ok width (step_particle width height i st)"
proof -
  obtain ps hm g ops where st: "st = (ps, hm, g, ops)"
    by (cases st) auto
  have ok: "sizes_ok ps" "field_ok width hm" "unit_range g"
    using assms(1) by (simp_all add: flakes_ok_def st)
  have i: "i < length ps" using assms(2) by (simp add: st)
  let ?p = "moved width (ps ! i)"
  let ?c = "createParticle (real width) height (- 10) g"
  have sz: "0 \<le> sp_size ?p"
    using ok(1) i by (simp add: sizes_ok_def)
  have new: "0 \<le> sp_size (fst ?c)" "unit_range (snd ?c)"
    using ok(3) by (simp_all add: createParticle_size createParticle_rng)
  show ?thesis
  proof (cases "collides width height hm ?p")
    case True
    then have "step_particle width height i st =
        ((ps[i := fst ?c]), map_option (deposit width \<lfloor>sp_x ?p\<rfloor> (sp_size ?p)) hm, snd ?c, ops)"
      by (simp add: step_particle_def st Let_def split: prod.splits)
    then show ?thesis
      using ok new sz by (simp add: flakes_ok_def sizes_ok_update field_ok_deposit)
  next
    case False
    then show ?thesis
      using ok new sz
      by (auto simp: step_particle_def st Let_def flakes_ok_def sizes_ok_update split: prod.splits)
  qed
qed

lemma length_fold_step_particle [simp]:
  "length (fst (fold (step_particle width height) is st)) = length (fst st)"
  by (induction "is" arbitrary: st) simp_all

lemma flakes_ok_fold_step_particle:
  "flakes_ok width st \<Longrightarrow> \<forall>i \<in> set is. i < length (fst st) \<Longrightarrow>
     flakes_ok width (fold (step_particle width height) is st)"
  by (induction "is" arbitrary: st) (simp_all add: flakes_ok_step_particle)

lemma length_step_all [simp]: "length (fst (step_all width height st)) = length (fst st)"
  by (cases st) (simp add: step_all_def)

lemma flakes_ok_step_all:
  assumes "flakes_ok width st"
  shows "flakes_ok width (step_all width height st)"
proof -
  obtain ps hm g ops where st: "st = (ps, hm, g, ops)"
    by (cases st) auto
  have "\<forall>i \<in> set (rev [0..<length ps]). i < length (fst st)"
    by (simp add: st)
  with assms show ?thesis
    unfolding st step_all_def by (simp add: flakes_ok_fold_step_particle)
qed

lemma replenish_ok:
  assumes "sizes_ok ps" "unit_range g"
  shows "sizes_ok (fst (replenish isActive width height (ps, g)))"
    and "unit_range (snd (replenish isActive width height (ps, g)))"
  using assms
  by (simp_all add: replenish_def case_prod_beta sizes_ok_snoc createParticle_size
      createParticle_rng)

lemma length_replenish:
  "length (fst (replenish isActive width height (ps, g))) =
     (if isActive \<and> length ps < 400 then length ps + 1 else length ps)"
  by (simp add: replenish_def case_prod_beta)

lemma update_parts:
  "fst (update isActive width height motionScore s) =
     (let hm2 = clear_pile motionScore (fst (snd (field_phase width height (heightMap s))))
                  (fst (field_phase width height (heightMap s)))
      in if \<not> isActive \<and> particles s = [] then s\<lparr>heightMap := hm2\<rparr>
         else (let pg = replenish isActive width height (particles s, rnd s);
                   st = step_all width height
                          (fst pg, hm2, snd pg,
                           ClearRect 0 0 (real width) height
                             # snd (snd (field_phase width height (heightMap s))))
               in \<lparr>particles = fst st, heightMap = fst (snd st), rnd = fst (snd (snd st))\<rparr>))"
  by (simp add: update_def Let_def split: prod.splits)

lemma snow_inv_update:
  assumes "snow_inv width s"
  shows "snow_inv width (fst (update isActive width height motionScore s))"
proof -
  let ?fp = "field_phase width height (heightMap s)"
  let ?hm2 = "clear_pile motionScore (fst (snd ?fp)) (fst ?fp)"
  have ok: "sizes_ok (particles s)" "field_ok width (heightMap s)" "unit_range (rnd s)"
    using assms by (simp_all add: snow_inv_def)
  have hm2: "field_ok width ?hm2"
    by (simp add: field_ok_clear_pile field_ok_field_phase ok(2))
  let ?pg = "replenish isActive width height (particles s, rnd s)"
  let ?st = "step_all width height
               (fst ?pg, ?hm2, snd ?pg, ClearRect 0 0 (real width) height # snd (snd ?fp))"
  have "flakes_ok width (fst ?pg, ?hm2, snd ?pg, ClearRect 0 0 (real width) height # snd (snd ?fp))"
    using hm2 replenish_ok [OF ok(1) ok(3)] by (simp add: flakes_ok_def)
  then have "flakes_ok width ?st"
    by (rule flakes_ok_step_all)
  then have "snow_inv width \<lparr>particles = fst ?st, heightMap = fst (snd ?st), rnd = fst (snd (snd ?st))\<rparr>"
    by (cases ?st) (simp add: flakes_ok_def snow_inv_def)
  moreover have "snow_inv width (s\<lparr>heightMap := ?hm2\<rparr>)"
    using ok hm2 by (simp add: snow_inv_def)
  ultimately show ?thesis
    by (simp add: update_parts Let_def)
qed


section \<open>Snow: the strided overflow check\<close>

lemma overflow_from_iff:
  "overflow_from i width height hMap =
     (\<exists>k. i + 20 * k < width \<and> hMap ! (i + 20 * k) \<ge> height - 10)"
proof (induction i width height hMap rule: overflow_from.induct)
  case (1 i width height hMap)
  show ?case
  proof (cases "i < width")
    case False
    then show ?thesis by (subst overflow_from.simps) simp
  next
    case True
    show ?thesis
    proof (cases "hMap ! i \<ge> height - 10")
      case hit: True
      then have "i + 20 * 0 < width \<and> hMap ! (i + 20 * 0) \<ge> height - 10"
        using True by simp
      then have "\<exists>k. i + 20 * k < width \<and> hMap ! (i + 20 * k) \<ge> height - 10"
        by blast
      then show ?thesis
        using True hit by (subst overflow_from.simps) simp
    next
      case miss: False
      have "overflow_from i width height hMap = overflow_from (i + 20) width height hMap"
        using True miss by (subst overflow_from.simps) simp
      also have "\<dots> = (\<exists>k. i + 20 + 20 * k < width \<and> hMap ! (i + 20 + 20 * k) \<ge> height - 10)"
        using "1.IH" True miss by simp
      also have "\<dots> = (\<exists>k. i + 20 * k < width \<and> hMap ! (i + 20 * k) \<ge> height - 10)"
      proof
        assume "\<exists>k. i + 20 + 20 * k < width \<and> hMap ! (i + 20 + 20 * k) \<ge> height - 10"
        then obtain k where "i + 20 + 20 * k < width \<and> hMap ! (i + 20 + 20 * k) \<ge> height - 10"
          by blast
        then have "i + 20 * Suc k < width \<and> hMap ! (i + 20 * Suc k) \<ge> height - 10"
          by (simp add: add.assoc)
        then show "\<exists>k. i + 20 * k < width \<and> hMap ! (i + 20 * k) \<ge> height - 10"
          by blast
      next
        assume "\<exists>k. i + 20 * k < width \<and> hMap ! (i + 20 * k) \<ge> height - 10"
        then obtain k where k: "i + 20 * k < width \<and> hMap ! (i + 20 * k) \<ge> height - 10"
          by blast
        then have "k \<noteq> 0" using miss by (cases k) auto
        then obtain k' where "k = Suc k'" by (cases k) auto
        with k have "i + 20 + 20 * k' < width \<and> hMap ! (i + 20 + 20 * k') \<ge> height - 10"
          by (simp add: add.assoc)
        then show "\<exists>k. i + 20 + 20 * k < width \<and> hMap ! (i + 20 + 20 * k) \<ge> height - 10"
          by blast
      qed
      finally show ?thesis .
    qed
  qed
qed

lemma check_overflow_iff:
  "check_overflow width height hMap = (\<exists>i<width. 20 dvd i \<and> hMap ! i \<ge> height - 10)"
proof -
  have "(\<exists>k. 20 * k < width \<and> hMap ! (20 * k) \<ge> height - 10) =
        (\<exists>i<width. 20 dvd i \<and> hMap ! i \<ge> height - 10)"
    by (auto simp: dvd_def)
  then show ?thesis
    by (simp add: check_overflow_def overflow_from_iff)
qed

section \<open>Snow: the size of the particle pool\<close>



lemma particles_resize [simp]: "particles (resize width s) = particles s"
  by (simp add: resize_def)









lemma length_lg_step_particle [simp]:
  "length (fst (lg_step_particle width height i st)) = length (fst st)"
  by (cases st) (simp add: lg_step_particle_def Let_def case_prod_beta)





lemma replenish_idle:
  "\<not> isActive \<or> 400 \<le> length ps \<Longrightarrow> replenish isActive width height (ps, g) = (ps, g)"
  by (auto simp: replenish_def)

section \<open>Snow: the order of the steps of a frame\<close>

lemma update_unfold:
  "update isActive width height motionScore s =
     (let hm2 = cleared_field width height motionScore (heightMap s);
          ops1 = ClearRect 0 0 (real width) height # pile_ops width height (heightMap s)
      in if \<not> isActive \<and> particles s = [] then (s\<lparr>heightMap := hm2\<rparr>, ops1)
         else (let pg = replenish isActive width height (particles s, rnd s);
                   st = step_all width height (fst pg, hm2, snd pg, ops1)
               in (\<lparr>particles = fst st, heightMap = fst (snd st), rnd = fst (snd (snd st))\<rparr>,
                   snd (snd (snd st)))))"
  by (simp add: update_def Let_def cleared_field_def shouldClearPile_def pile_ops_def
      split: prod.splits)

lemma step_particle_ops:
  "\<exists>more. snd (snd (snd (step_particle width height i (ps, hm, g, ops)))) = ops @ more"
  by (simp add: step_particle_def Let_def case_prod_beta)

lemma fold_step_particle_ops:
  "\<exists>more. snd (snd (snd (fold (step_particle width height) is (ps, hm, g, ops)))) = ops @ more"
proof (induction "is" arbitrary: ps hm g ops)
  case Nil
  then show ?case by simp
next
  case (Cons i "is")
  obtain ps1 hm1 g1 ops1 where st: "step_particle width height i (ps, hm, g, ops) = (ps1, hm1, g1, ops1)"
    by (cases "step_particle width height i (ps, hm, g, ops)") auto
  obtain m1 where m1: "ops1 = ops @ m1"
    using step_particle_ops [of width height i ps hm g ops] by (auto simp: st)
  obtain m2 where "snd (snd (snd (fold (step_particle width height) is (ps1, hm1, g1, ops1)))) = ops1 @ m2"
    using Cons.IH by blast
  then show ?case
    by (simp add: st m1)
qed

lemma step_all_ops:
  "\<exists>more. snd (snd (snd (step_all width height (ps, hm, g, ops)))) = ops @ more"
  by (simp add: step_all_def fold_step_particle_ops)

lemma update_ops:
  "\<exists>more. snd (update isActive width height motionScore s) =
     ClearRect 0 0 (real width) height # pile_ops width height (heightMap s) @ more"
proof (cases "\<not> isActive \<and> particles s = []")
  case True
  then show ?thesis by (simp add: update_unfold Let_def)
next
  case False
  let ?pg = "replenish isActive width height (particles s, rnd s)"
  obtain more where
    "snd (snd (snd (step_all width height
       (fst ?pg, cleared_field width height motionScore (heightMap s), snd ?pg,
        ClearRect 0 0 (real width) height # pile_ops width height (heightMap s))))) =
     (ClearRect 0 0 (real width) height # pile_ops width height (heightMap s)) @ more"
    using step_all_ops by blast
  then show ?thesis
    using False by (simp add: update_unfold Let_def)
qed

lemma pile_ops_Some:
  "pile_ops width height (Some hMap) = render_pile width height (smooth width (decay width hMap))"
  by (simp add: pile_ops_def field_phase_def Let_def)

lemma cleared_field_reset:
  assumes "motionScore > 0.3 \<or> shouldClearPile width height (Some hMap)"
  shows "cleared_field width height motionScore (Some hMap) = Some (replicate (length hMap) 0)"
  using assms
  by (simp add: cleared_field_def clear_pile_def field_phase_def Let_def map_replicate_const)

lemma update_draws_pile:
  assumes "heightMap s = Some hMap"
  shows "take (Suc (length (render_pile width height (smooth width (decay width hMap)))))
           (snd (update isActive width height motionScore s)) =
         ClearRect 0 0 (real width) height
           # render_pile width height (smooth width (decay width hMap))"
proof -
  obtain more where "snd (update isActive width height motionScore s) =
     ClearRect 0 0 (real width) height # pile_ops width height (heightMap s) @ more"
    using update_ops by blast
  then show ?thesis
    by (simp add: assms pile_ops_Some)
qed

lemma pile_example:
  "render_pile 4 100 (smooth 4 (decay 4 [5, 5, 5, 5])) =
     [BeginPath, MoveTo 0 100, LineTo 0 95.02, LineTo 2 95, LineTo 4 100, ClosePath,
      FillStyleGradient 0 (- 50) 0 100, Fill]"
  by (simp add: smooth_def passes_def smooth_pass_def sweep_left_def sweep_right_def
      settle_right_def settle_left_def transfer_def threshold_def settleAmount_def upt_rec
      decay_def decay_from.simps decay_cell_def render_pile_def profile_from.simps)

lemma pile_example_length:
  "Suc (length (render_pile 4 100 (smooth 4 (decay 4 [5, 5, 5, 5])))) = 9"
  by (simp add: pile_example)

section \<open>Snow: the height map after a reset\<close>

lemma step_particle_pool:
  "\<exists>q. fst (step_particle width height i (ps, hm, g, ops)) = ps[i := q]"
  by (auto simp: step_particle_def Let_def case_prod_beta)

lemma step_particle_no_hit:
  "\<not> collides width height hm (moved width (ps ! i)) \<Longrightarrow>
     fst (snd (step_particle width height i (ps, hm, g, ops))) = hm"
  by (simp add: step_particle_def Let_def case_prod_beta)

lemma fold_step_particle_no_hit:
  assumes "distinct is"
    and "\<forall>i \<in> set is. \<not> collides width height hm (moved width (ps ! i))"
  shows "fst (snd (fold (step_particle width height) is (ps, hm, g, ops))) = hm"
  using assms
proof (induction "is" arbitrary: ps g ops)
  case Nil
  then show ?case by simp
next
  case (Cons i "is")
  obtain ps1 hm1 g1 ops1 where st: "step_particle width height i (ps, hm, g, ops) = (ps1, hm1, g1, ops1)"
    by (cases "step_particle width height i (ps, hm, g, ops)") auto
  have hm1: "hm1 = hm"
    using step_particle_no_hit [of width height hm ps i g ops] Cons.prems(2) by (simp add: st)
  obtain q where ps1: "ps1 = ps[i := q]"
    using step_particle_pool [of width height i ps hm g ops] by (auto simp: st)
  have "\<forall>j \<in> set is. \<not> collides width height hm (moved width (ps1 ! j))"
  proof
    fix j assume j: "j \<in> set is"
    then have "j \<noteq> i" using Cons.prems(1) by auto
    then have "ps1 ! j = ps ! j" by (simp add: ps1)
    then show "\<not> collides width height hm (moved width (ps1 ! j))"
      using Cons.prems(2) j by simp
  qed
  moreover have "distinct is" using Cons.prems(1) by simp
  ultimately have "fst (snd (fold (step_particle width height) is (ps1, hm, g1, ops1))) = hm"
    by (rule Cons.IH [rotated])
  then show ?case by (simp add: st hm1)
qed

lemma step_all_no_hit:
  assumes "\<forall>p \<in> set ps. \<not> collides width height hm (moved width p)"
  shows "fst (snd (step_all width height (ps, hm, g, ops))) = hm"
proof -
  have "\<forall>i \<in> set (rev [0..<length ps]). \<not> collides width height hm (moved width (ps ! i))"
    using assms by simp
  moreover have "distinct (rev [0..<length ps])" by simp
  ultimately show ?thesis
    unfolding step_all_def by (simp add: fold_step_particle_no_hit)
qed

lemma update_heightMap:
  "heightMap (fst (update isActive width height motionScore s)) =
     (if \<not> isActive \<and> particles s = []
      then cleared_field width height motionScore (heightMap s)
      else fst (snd (step_all width height
             (fst (replenish isActive width height (particles s, rnd s)),
              cleared_field width height motionScore (heightMap s),
              snd (replenish isActive width height (particles s, rnd s)),
              ClearRect 0 0 (real width) height # pile_ops width height (heightMap s)))))"
  by (simp add: update_unfold Let_def)

lemma update_no_hit:
  assumes "\<forall>p \<in> set (fst (replenish isActive width height (particles s, rnd s))).
             \<not> collides width height (cleared_field width height motionScore (heightMap s))
                 (moved width p)"
  shows "heightMap (fst (update isActive width height motionScore s)) =
           cleared_field width height motionScore (heightMap s)"
  using assms by (simp add: update_heightMap step_all_no_hit)

lemma moved_y [simp]: "sp_y (moved width p) = sp_y p + sp_vy p"
  by (simp add: moved_def Let_def)

lemma collides_zero:
  "collides width height (Some (replicate width 0)) p =
     (0 \<le> \<lfloor>sp_x p\<rfloor> \<and> \<lfloor>sp_x p\<rfloor> < int width \<and> sp_y p \<ge> height + 2)"
proof (cases "0 \<le> \<lfloor>sp_x p\<rfloor> \<and> \<lfloor>sp_x p\<rfloor> < int width")
  case True
  then have "nat \<lfloor>sp_x p\<rfloor> < width" by linarith
  then have "replicate width (0::real) ! nat \<lfloor>sp_x p\<rfloor> = 0" by simp
  then show ?thesis
    using True by (simp add: collides_def Let_def)
next
  case False
  then show ?thesis
    by (auto simp: collides_def Let_def)
qed

lemma flake_airborne: "\<not> collides 800 600 (Some (replicate 800 0)) (moved 800 flake)"
  by (simp add: collides_zero flake_def)

lemma deposit_cell_mono:
  assumes "0 \<le> sz"
  shows "hMap ! j \<le> deposit_cell width pX sz k hMap ! j"
proof (cases "0 \<le> pX + k \<and> pX + k < int width \<and> j = nat (pX + k) \<and> j < length hMap")
  case True
  have "0 \<le> sz * 0.5 * falloff k"
    using assms falloff_pos [of k] by simp
  then show ?thesis
    using True by (simp add: deposit_cell_def Let_def)
next
  case False
  then show ?thesis
    by (cases "j = nat (pX + k)") (auto simp: deposit_cell_def Let_def list_update_beyond)
qed

lemma fold_deposit_cell_mono:
  "0 \<le> sz \<Longrightarrow> hMap ! j \<le> fold (deposit_cell width pX sz) ks hMap ! j"
proof (induction ks arbitrary: hMap)
  case Nil
  then show ?case by simp
next
  case (Cons k ks)
  have "hMap ! j \<le> deposit_cell width pX sz k hMap ! j"
    using Cons.prems by (rule deposit_cell_mono)
  also have "\<dots> \<le> fold (deposit_cell width pX sz) ks (deposit_cell width pX sz k hMap) ! j"
    using Cons.prems by (rule Cons.IH)
  finally show ?case by simp
qed

lemma deposit_mono: "0 \<le> sz \<Longrightarrow> hMap ! j \<le> deposit width pX sz hMap ! j"
  by (simp add: deposit_def fold_deposit_cell_mono)

lemma falloff_zero: "falloff 0 = 1"
  by (simp add: falloff_def)

lemma deposit_center:
  assumes "0 \<le> sz" "length hMap = width" "0 \<le> pX" "pX < int width"
  shows "hMap ! nat pX + sz * 0.5 \<le> deposit width pX sz hMap ! nat pX"
proof -
  let ?f = "deposit_cell width pX sz"
  let ?h1 = "fold ?f [- radius..- 1] hMap"
  have split: "[- radius..radius] = [- radius..- 1] @ 0 # [1..radius]"
    using upto_split3 [of "- radius" 0 radius] by (simp add: radius_def)
  have len: "nat pX < length ?h1"
    using assms by simp
  have "hMap ! nat pX + sz * 0.5 \<le> ?h1 ! nat pX + sz * 0.5"
    using fold_deposit_cell_mono [OF assms(1)] by simp
  also have "\<dots> = ?f 0 ?h1 ! nat pX"
    using assms len by (simp add: deposit_cell_def falloff_zero)
  also have "\<dots> \<le> fold ?f [1..radius] (?f 0 ?h1) ! nat pX"
    using assms(1) by (rule fold_deposit_cell_mono)
  finally show ?thesis
    by (simp add: deposit_def split)
qed

lemma step_particle_hit:
  "collides width height hm (moved width (ps ! i)) \<Longrightarrow>
     fst (snd (step_particle width height i (ps, hm, g, ops))) =
       map_option (deposit width \<lfloor>sp_x (moved width (ps ! i))\<rfloor> (sp_size (ps ! i))) hm"
  by (simp add: step_particle_def Let_def case_prod_beta)

lemma step_particle_field_mono:
  assumes "sizes_ok ps" "i < length ps"
  shows "\<exists>h'. fst (snd (step_particle width height i (ps, Some hMap, g, ops))) = Some h' \<and>
              (\<forall>j. hMap ! j \<le> h' ! j)"
proof (cases "collides width height (Some hMap) (moved width (ps ! i))")
  case True
  have "0 \<le> sp_size (ps ! i)"
    using assms by (simp add: sizes_ok_def)
  then show ?thesis
    using True by (simp add: step_particle_hit deposit_mono)
next
  case False
  then show ?thesis
    by (simp add: step_particle_no_hit)
qed

lemma fold_step_particle_field_mono:
  assumes "flakes_ok width (ps, Some hMap, g, ops)" "\<forall>i \<in> set is. i < length ps"
  shows "\<exists>h'. fst (snd (fold (step_particle width height) is (ps, Some hMap, g, ops))) = Some h' \<and>
              (\<forall>j. hMap ! j \<le> h' ! j)"
  using assms
proof (induction "is" arbitrary: ps hMap g ops)
  case Nil
  then show ?case by simp
next
  case (Cons i "is")
  obtain ps1 hm1 g1 ops1 where st: "step_particle width height i (ps, Some hMap, g, ops) = (ps1, hm1, g1, ops1)"
    by (cases "step_particle width height i (ps, Some hMap, g, ops)") auto
  have i: "i < length ps" using Cons.prems(2) by simp
  have sz: "sizes_ok ps" using Cons.prems(1) by (simp add: flakes_ok_def)
  obtain h1 where h1: "hm1 = Some h1" "\<forall>j. hMap ! j \<le> h1 ! j"
    using step_particle_field_mono [OF sz i, of width height hMap g ops] by (auto simp: st)
  have ok1: "flakes_ok width (ps1, Some h1, g1, ops1)"
    using flakes_ok_step_particle [OF Cons.prems(1), of i height] i by (simp add: st h1)
  have len: "length ps1 = length ps"
    using length_step_particle [of width height i "(ps, Some hMap, g, ops)"] by (simp add: st)
  have "\<forall>i \<in> set is. i < length ps1"
    using Cons.prems(2) by (simp add: len)
  with ok1 obtain h' where
    "fst (snd (fold (step_particle width height) is (ps1, Some h1, g1, ops1))) = Some h'"
    "\<forall>j. h1 ! j \<le> h' ! j"
    using Cons.IH by blast
  then show ?case
    using h1 by (auto simp: st intro: order_trans)
qed

lemma collides_pile:
  assumes "collides width height (Some (replicate width 0)) p"
    and "length hMap = width" "nonneg hMap"
  shows "collides width height (Some hMap) p"
proof -
  have r: "0 \<le> \<lfloor>sp_x p\<rfloor>" "\<lfloor>sp_x p\<rfloor> < int width" "sp_y p \<ge> height + 2"
    using assms(1) by (simp_all add: collides_zero)
  then have "nat \<lfloor>sp_x p\<rfloor> < length hMap"
    using assms(2) by linarith
  then have "0 \<le> hMap ! nat \<lfloor>sp_x p\<rfloor>"
    using assms(3) by (simp add: nonneg_nth)
  then show ?thesis
    using r by (simp add: collides_def Let_def)
qed

lemma fold_step_particle_landing:
  assumes "flakes_ok width (ps, Some hMap, g, ops)" "distinct is"
    and "\<forall>j \<in> set is. j < length ps" "i \<in> set is"
    and "collides width height (Some (replicate width 0)) (moved width (ps ! i))"
  shows "\<exists>h'. fst (snd (fold (step_particle width height) is (ps, Some hMap, g, ops))) = Some h' \<and>
              sp_size (ps ! i) * 0.5 \<le> h' ! nat \<lfloor>sp_x (moved width (ps ! i))\<rfloor>"
  using assms
proof (induction "is" arbitrary: ps hMap g ops)
  case Nil
  then show ?case by simp
next
  case (Cons k ks)
  let ?pX = "\<lfloor>sp_x (moved width (ps ! i))\<rfloor>"
  obtain ps1 hm1 g1 ops1 where st: "step_particle width height k (ps, Some hMap, g, ops) = (ps1, hm1, g1, ops1)"
    by (cases "step_particle width height k (ps, Some hMap, g, ops)") auto
  have k: "k < length ps" using Cons.prems(3) by simp
  have ok: "sizes_ok ps" "length hMap = width" "nonneg hMap"
    using Cons.prems(1) by (simp_all add: flakes_ok_def field_ok_def)
  obtain h1 where h1: "hm1 = Some h1" "\<forall>j. hMap ! j \<le> h1 ! j"
    using step_particle_field_mono [OF ok(1) k, of width height hMap g ops] by (auto simp: st)
  have ok1: "flakes_ok width (ps1, Some h1, g1, ops1)"
    using flakes_ok_step_particle [OF Cons.prems(1), of k height] k by (simp add: st h1)
  have len: "length ps1 = length ps"
    using length_step_particle [of width height k "(ps, Some hMap, g, ops)"] by (simp add: st)
  have rest: "\<forall>j \<in> set ks. j < length ps1" "distinct ks"
    using Cons.prems(2,3) by (simp_all add: len)
  show ?case
  proof (cases "k = i")
    case True
    have hit: "collides width height (Some hMap) (moved width (ps ! i))"
      using Cons.prems(5) ok(2,3) by (rule collides_pile)
    have "hm1 = Some (deposit width ?pX (sp_size (ps ! i)) hMap)"
      using step_particle_hit [OF hit, of g ops] st True by simp
    then have h1_eq: "h1 = deposit width ?pX (sp_size (ps ! i)) hMap"
      using h1(1) by simp
    have r: "0 \<le> ?pX" "?pX < int width"
      using Cons.prems(5) by (simp_all add: collides_zero)
    have sz: "0 \<le> sp_size (ps ! i)"
      using ok(1) k True by (simp add: sizes_ok_def)
    have "nat ?pX < length hMap"
      using ok(2) r by linarith
    then have "0 \<le> hMap ! nat ?pX"
      using ok(3) by (rule nonneg_nth [rotated])
    then have low: "sp_size (ps ! i) * 0.5 \<le> h1 ! nat ?pX"
      using deposit_center [OF sz ok(2) r] by (simp add: h1_eq)
    obtain h' where h': "fst (snd (fold (step_particle width height) ks (ps1, Some h1, g1, ops1))) = Some h'"
      "\<forall>j. h1 ! j \<le> h' ! j"
      using fold_step_particle_field_mono [OF ok1 rest(1), of height] by blast
    have "sp_size (ps ! i) * 0.5 \<le> h' ! nat ?pX"
      using low h'(2) by (meson order_trans)
    then show ?thesis
      using h'(1) by (simp add: st h1(1))
  next
    case False
    obtain q where ps1: "ps1 = ps[k := q]"
      using step_particle_pool [of width height k ps "Some hMap" g ops] by (auto simp: st)
    have same: "ps1 ! i = ps ! i"
      using False by (simp add: ps1)
    have "i \<in> set ks" using Cons.prems(4) False by simp
    moreover have "collides width height (Some (replicate width 0)) (moved width (ps1 ! i))"
      using Cons.prems(5) by (simp add: same)
    ultimately obtain h' where
      "fst (snd (fold (step_particle width height) ks (ps1, Some h1, g1, ops1))) = Some h'"
      "sp_size (ps1 ! i) * 0.5 \<le> h' ! nat \<lfloor>sp_x (moved width (ps1 ! i))\<rfloor>"
      using Cons.IH [OF ok1 rest(2) rest(1)] by blast
    then show ?thesis
      by (simp add: st h1(1) same)
  qed
qed

lemma replenish_nth:
  "i < length ps \<Longrightarrow> fst (replenish isActive width height (ps, g)) ! i = ps ! i"
  by (simp add: replenish_def case_prod_beta nth_append)

lemma update_landing:
  assumes "snow_inv width s" "heightMap s = Some hMap"
    and "motionScore > 0.3 \<or> shouldClearPile width height (Some hMap)"
    and "i < length (particles s)"
    and "collides width height (Some (replicate width 0)) (moved width (particles s ! i))"
  shows "\<exists>h'. heightMap (fst (update isActive width height motionScore s)) = Some h' \<and>
              sp_size (particles s ! i) * 0.5
                \<le> h' ! nat \<lfloor>sp_x (moved width (particles s ! i))\<rfloor>"
proof -
  let ?pg = "replenish isActive width height (particles s, rnd s)"
  let ?ops = "ClearRect 0 0 (real width) height # pile_ops width height (heightMap s)"
  have inv: "sizes_ok (particles s)" "length hMap = width" "unit_range (rnd s)"
    using assms(1,2) by (simp_all add: snow_inv_def field_ok_def)
  have z: "cleared_field width height motionScore (heightMap s) = Some (replicate width 0)"
    using assms(2,3) inv(2) cleared_field_reset [of motionScore width height hMap] by simp
  have ok: "flakes_ok width (fst ?pg, Some (replicate width 0), snd ?pg, ?ops)"
    using replenish_ok [OF inv(1) inv(3), of isActive width height]
    by (simp add: flakes_ok_def field_ok_def nonneg_def)
  have i: "i < length (fst ?pg)"
    using assms(4) by (simp add: length_replenish)
  have same: "fst ?pg ! i = particles s ! i"
    using assms(4) by (rule replenish_nth)
  have "\<exists>h'. fst (snd (fold (step_particle width height) (rev [0..<length (fst ?pg)])
                   (fst ?pg, Some (replicate width 0), snd ?pg, ?ops))) = Some h' \<and>
              sp_size (fst ?pg ! i) * 0.5 \<le> h' ! nat \<lfloor>sp_x (moved width (fst ?pg ! i))\<rfloor>"
  proof (rule fold_step_particle_landing [OF ok])
    show "distinct (rev [0..<length (fst ?pg)])" by simp
    show "\<forall>j \<in> set (rev [0..<length (fst ?pg)]). j < length (fst ?pg)" by simp
    show "i \<in> set (rev [0..<length (fst ?pg)])" using i by simp
    show "collides width height (Some (replicate width 0)) (moved width (fst ?pg ! i))"
      using assms(5) by (simp add: same)
  qed
  moreover have "particles s \<noteq> []"
    using assms(4) by auto
  ultimately show ?thesis
    by (simp add: update_heightMap z step_all_def same)
qed

lemma moved_x_bounds:
  assumes "0.5 \<le> sp_x p + sp_vx p" "sp_x p + sp_vx p + 0.5 \<le> real width"
  shows "sp_x p + sp_vx p - 0.5 \<le> sp_x (moved width p)"
    and "sp_x (moved width p) \<le> sp_x p + sp_vx p + 0.5"
proof -
  define t where "t = sin ((sp_y p + sp_vy p) * 0.02) * 0.5"
  have t: "- 0.5 \<le> t" "t \<le> 0.5"
    using sin_ge_minus_one [of "(sp_y p + sp_vy p) * 0.02"]
      sin_le_one [of "(sp_y p + sp_vy p) * 0.02"]
    by (simp_all add: t_def)
  have "sp_x (moved width p) =
      (if (if sp_x p + sp_vx p + t < 0 then real width else sp_x p + sp_vx p + t) > real width
       then 0
       else (if sp_x p + sp_vx p + t < 0 then real width else sp_x p + sp_vx p + t))"
    by (simp add: moved_def Let_def t_def)
  then have "sp_x (moved width p) = sp_x p + sp_vx p + t"
    using assms t by simp
  then show "sp_x p + sp_vx p - 0.5 \<le> sp_x (moved width p)"
    and "sp_x (moved width p) \<le> sp_x p + sp_vx p + 0.5"
    using t by simp_all
qed

lemma lander_column:
  "0 \<le> \<lfloor>sp_x (moved 800 lander)\<rfloor>" "\<lfloor>sp_x (moved 800 lander)\<rfloor> < 800"
proof -
  have "400 \<le> sp_x (moved 800 lander)" "sp_x (moved 800 lander) \<le> 401"
    using moved_x_bounds [of lander 800] by (simp_all add: lander_def)
  then show "0 \<le> \<lfloor>sp_x (moved 800 lander)\<rfloor>" "\<lfloor>sp_x (moved 800 lander)\<rfloor> < 800"
    by linarith+
qed

lemma lander_lands: "collides 800 600 (Some (replicate 800 0)) (moved 800 lander)"
proof -
  have "sp_y (moved 800 lander) \<ge> 600 + 2"
    by (simp add: lander_def)
  then show ?thesis
    using lander_column unfolding collides_zero by simp
qed

section \<open>Frost: every call on the mask adds opacity\<close>

lemma opacity_append: "opacity cov (ops @ new) = fold (paint cov) new (opacity cov ops)"
  by (simp add: opacity_def)

lemma paint_bounds:
  assumes "coverage_ok cov" "0 \<le> op_alpha op" "op_alpha op \<le> 1" "m px \<le> 1"
  shows "m px \<le> paint cov op m px" and "paint cov op m px \<le> 1"
proof -
  obtain shape a where op: "op = Paint shape a" by (cases op) auto
  let ?c = "a * cov shape px"
  have c: "0 \<le> cov shape px" "cov shape px \<le> 1"
    using assms(1) unfolding coverage_ok_def by blast+
  have a: "0 \<le> a" "a \<le> 1" using assms(2,3) by (simp_all add: op)
  have c0: "0 \<le> ?c" using a c by simp
  have c1: "?c \<le> 1" using a c by (simp add: mult_le_one)
  have "0 \<le> ?c * (1 - m px)"
    using c0 assms(4) by simp
  then show "m px \<le> paint cov op m px"
    by (simp add: op algebra_simps)
  have "0 \<le> (1 - ?c) * (1 - m px)"
    using c1 assms(4) by simp
  then show "paint cov op m px \<le> 1"
    by (simp add: op algebra_simps)
qed

lemma fold_paint_bounds:
  assumes "coverage_ok cov"
  shows "alphas_ok new \<Longrightarrow> m px \<le> 1 \<Longrightarrow>
           m px \<le> fold (paint cov) new m px \<and> fold (paint cov) new m px \<le> 1"
proof (induction new arbitrary: m)
  case Nil
  then show ?case by simp
next
  case (Cons op new)
  have a: "0 \<le> op_alpha op" "op_alpha op \<le> 1" and rest: "alphas_ok new"
    using Cons.prems(1) by (simp_all add: alphas_ok_def)
  have s: "m px \<le> paint cov op m px" "paint cov op m px \<le> 1"
    using paint_bounds [of cov op m px] assms a Cons.prems(2) by simp_all
  have "paint cov op m px \<le> fold (paint cov) new (paint cov op m) px \<and>
        fold (paint cov) new (paint cov op m) px \<le> 1"
    using rest s(2) by (rule Cons.IH)
  then show ?case
    using s(1) by simp
qed

lemma opacity_le_one:
  "coverage_ok cov \<Longrightarrow> alphas_ok ops \<Longrightarrow> opacity cov ops px \<le> 1"
  unfolding opacity_def using fold_paint_bounds [of cov ops "\<lambda>px. 0" px] by simp

lemma opacity_extend:
  assumes "coverage_ok cov" "alphas_ok ops" "alphas_ok new"
  shows "opacity cov ops px \<le> opacity cov (ops @ new) px"
    and "opacity cov (ops @ new) px \<le> 1"
  using fold_paint_bounds [OF assms(1) assms(3), of "opacity cov ops" px]
    opacity_le_one [OF assms(1,2), of px]
  by (simp_all add: opacity_append)

lemma alphas_ok_append: "alphas_ok (ops @ new) = (alphas_ok ops \<and> alphas_ok new)"
  by (auto simp: alphas_ok_def)

lemma frost_input_ops:
  "\<exists>new. maskOps (frost_input dp s) = maskOps s @ new \<and> alphas_ok new"
proof (cases dp)
  case None
  then show ?thesis
    by (cases "lastPoint s") (auto simp: frost_input_def Let_def alphas_ok_def)
next
  case (Some p)
  then show ?thesis
    by (cases p; cases "lastPoint s") (auto simp: frost_input_def Let_def alphas_ok_def)
qed

lemma step_drip_ops:
  "maskOps (step_drip height i s) =
     maskOps s @ [Paint (Disc (d_x (drips s ! i) + d_vx (drips s ! i))
                           (d_y (drips s ! i) + d_vy (drips s ! i)) (d_size (drips s ! i)))
                    (fillStyle s)]"
  by (simp add: step_drip_def Let_def)

lemma step_drip_fillStyle [simp]: "fillStyle (step_drip height i s) = fillStyle s"
  by (simp add: step_drip_def Let_def)

lemma fold_step_drip_ops:
  assumes "0 \<le> fillStyle s" "fillStyle s \<le> 1"
  shows "\<exists>new. maskOps (fold (step_drip height) is s) = maskOps s @ new \<and> alphas_ok new"
  using assms
proof (induction "is" arbitrary: s)
  case Nil
  then show ?case by (simp add: alphas_ok_def)
next
  case (Cons i "is")
  let ?s1 = "step_drip height i s"
  obtain op where op: "maskOps ?s1 = maskOps s @ [op]" "op_alpha op = fillStyle s"
    using step_drip_ops [of height i s] by simp
  obtain new where new: "maskOps (fold (step_drip height) is ?s1) = maskOps ?s1 @ new" "alphas_ok new"
    using Cons.IH [of ?s1] Cons.prems by auto
  have "alphas_ok (op # new)"
    using new(2) op(2) Cons.prems by (simp add: alphas_ok_def)
  then show ?case
    using new(1) op(1) by auto
qed

lemma frost_frame_ops:
  "\<exists>new. maskOps (frost_frame height s) = maskOps s @ new \<and> alphas_ok new"
proof (cases "length (drips s) > 0")
  case True
  have "\<exists>new. maskOps (fold (step_drip height) (rev [0..<length (drips s)]) (s\<lparr>fillStyle := 0.8\<rparr>))
            = maskOps (s\<lparr>fillStyle := 0.8\<rparr>) @ new \<and> alphas_ok new"
    by (rule fold_step_drip_ops) simp_all
  then show ?thesis
    using True by (simp add: frost_frame_def)
next
  case False
  then show ?thesis
    by (simp add: frost_frame_def alphas_ok_def)
qed

lemma frost_event_ops:
  "\<exists>new. maskOps (frost_event height e s) = maskOps s @ new \<and> alphas_ok new"
  by (cases e) (simp_all add: frost_input_ops frost_frame_ops)

lemma opacity_reset: "opacity cov (maskOps (frost_reset s)) px = 0"
  by (simp add: frost_reset_def opacity_def)

lemma coverage_ok_full_disc: "coverage_ok full_disc"
  by (auto simp: coverage_ok_def full_disc_def split: Shape.splits)

lemma dotted_ops: "maskOps dotted = [Paint (Disc 10 10 12) 1]"
  by (simp add: dotted_def frost_input_def frost_mounted_def Let_def brushSize_def)

lemma calm_apply: "calm n = 1 / 2"
  by (simp add: calm_def)

lemma frost_frame_idle: "drips s = [] \<Longrightarrow> frost_frame height s = s"
  by (simp add: frost_frame_def)

lemma tick_idle:
  "drips s = [] \<Longrightarrow> (frost_event height Tick ^^ n) s = s"
  by (induction n) (simp_all add: frost_frame_idle)

lemma gesture_run:
  assumes "lastPoint s = None"
  shows "fold (frost_event height) gesture s =
     s\<lparr>maskOps := maskOps s @ [Paint (Disc 10 10 12) 1, Paint (RoundLine 10 10 20 10 24) 1],
       fillStyle := 1, strokeStyle := 1, lineWidth := 24,
       drips := drips s @ (if frnd s 0 < 0.4 then [end_drip (frnd s)] else []),
       lastPoint := None,
       frnd := (if frnd s 0 < 0.4 then (\<lambda>n. frnd s (n + 5)) else (\<lambda>n. frnd s (n + 1)))\<rparr>"
  using assms
  by (simp add: gesture_def frost_input_def Let_def brushSize_def end_drip_def)

lemma end_drip_bounds:
  assumes "unit_range g"
  shows "14 \<le> d_x (end_drip g) \<and> d_x (end_drip g) < 26 \<and> d_y (end_drip g) = 10 \<and>
         d_vx (end_drip g) = 0 \<and> 0.5 \<le> d_vy (end_drip g) \<and> d_vy (end_drip g) < 2 \<and>
         1 \<le> d_size (end_drip g) \<and> d_size (end_drip g) < 2.5 \<and>
         20 \<le> d_life (end_drip g) \<and> d_life (end_drip g) < 50"
proof -
  have "0 \<le> g 1" "g 1 < 1" "0 \<le> g 2" "g 2 < 1" "0 \<le> g 3" "g 3 < 1" "0 \<le> g 4" "g 4 < 1"
    using assms by (simp_all add: unit_range_def)
  then show ?thesis
    by (simp add: end_drip_def)
qed

lemma frost_input_point_drips [simp]: "drips (frost_input (Some p) s) = drips s"
  by (simp add: frost_input_def Let_def split: prod.splits option.splits)

lemma gesture_with_frames:
  "fold (frost_event height)
     (Input (Some (10, 10)) # replicate n Tick @ Input (Some (20, 10)) # replicate k Tick @
      [Input None]) (frost_mounted g) =
   fold (frost_event height) gesture (frost_mounted g)"
proof -
  let ?s1 = "frost_input (Some (10, 10)) (frost_mounted g)"
  let ?s2 = "frost_input (Some (20, 10)) ?s1"
  have d1: "drips ?s1 = []" and d2: "drips ?s2 = []"
    by (simp_all add: frost_mounted_def)
  show ?thesis
    by (simp add: gesture_def tick_idle [OF d1] tick_idle [OF d2])
qed

section \<open>Snow: what a frame does to each particle\<close>


lemma shifted_trans: "shifted g g1 \<Longrightarrow> shifted g1 g2 \<Longrightarrow> shifted g g2"
proof -
  assume "shifted g g1" "shifted g1 g2"
  then obtain k m where "g1 = (\<lambda>n. g (n + k))" "g2 = (\<lambda>n. g1 (n + m))"
    by (auto simp: shifted_def)
  then have "g2 = (\<lambda>n. g (n + (m + k)))"
    by (simp add: add.assoc)
  then show ?thesis
    unfolding shifted_def by blast
qed





























section \<open>Snow: the claims about the height map\<close>

text \<open>
  Claim C2. One smoothing pass (the sweep to the right, then the sweep to the left), and
  so the three passes of a frame, keep the sum of all cells: a transfer takes
  \<open>settleAmount\<close> from one cell and adds it to the cell next to it, and changes no
  other cell. The sum is exact here because the cells are real numbers; the tolerance
  of the claim is the rounding of the typed array, which the model leaves out.
\<close>

theorem smoothing_keeps_total:
  assumes "length hMap = width"
  shows "sum_list (sweep_right width hMap) = sum_list hMap \<and>
         sum_list (sweep_left width hMap) = sum_list hMap \<and>
         sum_list (smooth_pass width hMap) = sum_list hMap \<and>
         sum_list (smooth width hMap) = sum_list hMap \<and>
         (0 < i \<longrightarrow>
            (settle_right i hMap = hMap \<or>
             settle_right i hMap =
               hMap[i := hMap ! i - settleAmount, i + 1 := hMap ! (i + 1) + settleAmount]) \<and>
            (settle_left i hMap = hMap \<or>
             settle_left i hMap =
               hMap[i := hMap ! i - settleAmount, i - 1 := hMap ! (i - 1) + settleAmount]))"
  using assms settle_right_cases settle_left_cases
  by (simp add: sum_list_sweep_right sum_list_sweep_left sum_list_smooth_pass sum_list_smooth)

theorem smoothing_keeps_total_witness:
  "length [0, 3, 0, 0 :: real] = 4 \<and> (0 :: nat) < 1 \<and>
   settle_right 1 [0, 3, 0, 0] = [0, 2.6, 0.4, 0] \<and>
   settle_left 1 [0, 3, 0, 0] = [0.4, 2.6, 0, 0] \<and>
   smooth_pass 4 [0, 3, 0, 0] = [0.4, 2.2, 0.4, 0] \<and>
   sum_list (smooth_pass 4 [0, 3, 0, 0]) = 3 \<and>
   sum_list (smooth 4 [0, 3, 0, 0]) = 3"
  using smoothing_keeps_total [of "[0, 3, 0, 0]" 4 1]
  by (simp add: smooth_pass_def sweep_left_def sweep_right_def settle_right_def settle_left_def
      transfer_def threshold_def settleAmount_def upt_rec)

text \<open>
  Claim C3. When no cell is negative, no cell is negative after the strided decay, after
  a transfer of either sweep and after the three passes, after the deposit of a particle
  of non-negative size, and after the reset; and a whole frame keeps the invariant that
  the map has one non-negative cell per column, the particle sizes are non-negative and
  the random draws lie in the unit interval.
\<close>

theorem height_map_nonneg:
  assumes "length hMap = width" and "nonneg hMap"
  shows "nonneg (decay width hMap) \<and>
         (0 < i \<and> i + 1 < width \<longrightarrow>
            nonneg (settle_right i hMap) \<and> nonneg (settle_left i hMap)) \<and>
         nonneg (smooth width hMap) \<and>
         (0 \<le> sz \<longrightarrow> nonneg (deposit width pX sz hMap)) \<and>
         nonneg (map (\<lambda>v. 0) hMap) \<and>
         (heightMap s = Some hMap \<and> sizes_ok (particles s) \<and> unit_range (rnd s) \<longrightarrow>
            snow_inv width (fst (update isActive width height motionScore s)))"
proof -
  have "snow_inv width (fst (update isActive width height motionScore s))"
    if "heightMap s = Some hMap" "sizes_ok (particles s)" "unit_range (rnd s)"
  proof (rule snow_inv_update)
    show "snow_inv width s"
      using that assms by (simp add: snow_inv_def field_ok_def)
  qed
  then show ?thesis
    using assms
    by (simp add: nonneg_decay nonneg_settle_right nonneg_settle_left nonneg_smooth
        nonneg_deposit nonneg_fill)
qed

theorem height_map_nonneg_witness:
  "length [0, 3, 0, 0 :: real] = 4 \<and> nonneg [0, 3, 0, 0] \<and>
   nonneg (decay 4 [0, 3, 0, 0]) \<and>
   nonneg (settle_right 1 [0, 3, 0, 0]) \<and> nonneg (settle_left 1 [0, 3, 0, 0]) \<and>
   nonneg (smooth 4 [0, 3, 0, 0]) \<and>
   nonneg (deposit 4 1 2 [0, 3, 0, 0]) \<and>
   snow_inv 4 (fst (update True 4 100 1
     \<lparr>particles = [\<lparr>sp_x = 1, sp_y = 99, sp_vx = 0, sp_vy = 2, sp_size = 2, sp_alpha = 1\<rparr>],
      heightMap = Some [0, 3, 0, 0], rnd = (\<lambda>n. 1 / 2)\<rparr>))"
  using height_map_nonneg [of "[0, 3, 0, 0]" 4 1 2 1
      "\<lparr>particles = [\<lparr>sp_x = 1, sp_y = 99, sp_vx = 0, sp_vy = 2, sp_size = 2, sp_alpha = 1\<rparr>],
        heightMap = Some [0, 3, 0, 0], rnd = (\<lambda>n. 1 / 2)\<rparr>" True 100 1]
  by (simp add: nonneg_def sizes_ok_def unit_range_def)

text \<open>
  Claim C10. The overflow flag of a frame is raised exactly when some cell whose index is
  a multiple of 20 holds at least \<open>height - 10\<close> at check time, that is after decay
  and smoothing. When no such column reaches the bound and the motion score is at most
  0.3, the flag stays down and the map is not cleared, whatever the other columns hold.
\<close>

theorem overflow_signal:
  assumes "length hMap = width"
  shows "check_overflow width height hMap = (\<exists>i<width. 20 dvd i \<and> hMap ! i \<ge> height - 10) \<and>
         shouldClearPile width height (Some hMap) =
           (\<exists>i<width. 20 dvd i \<and> smooth width (decay width hMap) ! i \<ge> height - 10) \<and>
         ((\<forall>i<width. 20 dvd i \<longrightarrow> smooth width (decay width hMap) ! i < height - 10) \<and>
          motionScore \<le> 0.3 \<longrightarrow>
            \<not> shouldClearPile width height (Some hMap) \<and>
            cleared_field width height motionScore (Some hMap)
              = Some (smooth width (decay width hMap)))"
proof -
  have flag: "shouldClearPile width height (Some hMap) =
      (\<exists>i<width. 20 dvd i \<and> smooth width (decay width hMap) ! i \<ge> height - 10)"
    by (simp add: shouldClearPile_def field_phase_def Let_def check_overflow_iff)
  have "cleared_field width height motionScore (Some hMap) = Some (smooth width (decay width hMap))"
    if "\<not> shouldClearPile width height (Some hMap)" "motionScore \<le> 0.3"
    using that by (simp add: cleared_field_def clear_pile_def field_phase_def Let_def)
  with flag show ?thesis
    by (auto simp: check_overflow_iff)
qed

theorem overflow_signal_witness:
  "length [0, 500, 0 :: real] = 3 \<and>
   smooth 3 (decay 3 [0, 500, 0]) = [1.2, 497.6, 1.2] \<and>
   (0 :: real) \<le> 0.3 \<and>
   \<not> check_overflow 3 100 [1.2, 497.6, 1.2] \<and>
   \<not> shouldClearPile 3 100 (Some [0, 500, 0]) \<and>
   cleared_field 3 100 0 (Some [0, 500, 0]) = Some [1.2, 497.6, 1.2]"
proof -
  have len: "length [0, 500, 0 :: real] = 3" "length [1.2, 497.6, 1.2 :: real] = 3"
    by simp_all
  have f: "smooth 3 (decay 3 [0, 500, 0]) = [1.2, 497.6, 1.2]"
    by (simp add: smooth_def passes_def smooth_pass_def sweep_left_def sweep_right_def
        settle_right_def settle_left_def transfer_def threshold_def settleAmount_def upt_rec
        decay_def decay_from.simps decay_cell_def)
  have low: "\<forall>i<3. 20 dvd i \<longrightarrow> [1.2, 497.6, 1.2 :: real] ! i < 100 - 10"
    by (auto simp: less_Suc_eq numeral_3_eq_3)
  then have none: "\<not> (\<exists>i<3. 20 dvd i \<and> [1.2, 497.6, 1.2 :: real] ! i \<ge> 100 - 10)"
    by (metis not_le)
  show ?thesis
    using overflow_signal [OF len(1), of 100 0] overflow_signal [OF len(2), of 100 0] low none f
    by simp
qed

section \<open>Snow: the claims about the particle pool\<close>








section \<open>Snow: the claims about the reset and the order of a frame\<close>

text \<open>
  Claim C4, as amended. In a frame in which the motion score exceeds 0.3 or the overflow
  check signals, every cell of the height map is zero right after the clear step of that
  frame. The particles are stepped after the clear, so a particle that lands in the rest
  of the frame deposits onto the cleared map; when no particle of the pool collides with
  the cleared map, the map is still all zero at the end of the frame, which is what the
  next frame starts from.
\<close>

theorem reset_zeroes_field:
  assumes "heightMap s = Some hMap" and "length hMap = width"
    and "motionScore > 0.3 \<or> shouldClearPile width height (Some hMap)"
  shows "cleared_field width height motionScore (heightMap s) = Some (replicate width 0) \<and>
         ((\<forall>p \<in> set (fst (replenish isActive width height (particles s, rnd s))).
              \<not> collides width height (Some (replicate width 0)) (moved width p)) \<longrightarrow>
          heightMap (fst (update isActive width height motionScore s)) = Some (replicate width 0))"
proof -
  have z: "cleared_field width height motionScore (heightMap s) = Some (replicate width 0)"
    using assms cleared_field_reset [of motionScore width height hMap] by simp
  then show ?thesis
    using update_no_hit [of isActive width height s motionScore] by simp
qed

theorem reset_zeroes_field_witness:
  "heightMap (fst (update False 800 600 1
      \<lparr>particles = replicate 300 flake, heightMap = Some (replicate 800 5), rnd = calm\<rparr>))
     = Some (replicate 800 0)"
  using reset_zeroes_field [of "\<lparr>particles = replicate 300 flake,
      heightMap = Some (replicate 800 5), rnd = calm\<rparr>" "replicate 800 5" 800 1 600 False]
    flake_airborne
  by (simp add: replenish_idle)


text \<open>
  Claim C4 as stated fails: with a motion score of 1 the map, a pile of height 5 on the
  first 100 columns, is cleared; the first particle of the pool, over an empty column,
  then lands (its move takes it to 602.1, past the bottom edge plus 2) and deposits, so
  the frame does not end with an all-zero map.
\<close>

theorem reset_counterexample:
  "heightMap (fst (update False 800 600 1
      \<lparr>particles = lander # replicate 299 flake,
        heightMap = Some (replicate 100 5 @ replicate 700 0), rnd = calm\<rparr>))
     \<noteq> Some (replicate 800 0)"
proof -
  let ?s = "\<lparr>particles = lander # replicate 299 flake,
             heightMap = Some (replicate 100 5 @ replicate 700 0), rnd = calm\<rparr>"
  let ?pX = "\<lfloor>sp_x (moved 800 lander)\<rfloor>"
  have inv: "snow_inv 800 ?s"
    by (simp add: snow_inv_def sizes_ok_def field_ok_def nonneg_def unit_range_def calm_def
        lander_def flake_def)
  have hit: "collides 800 600 (Some (replicate 800 0)) (moved 800 (particles ?s ! 0))"
    using lander_lands by simp
  obtain h' where h': "heightMap (fst (update False 800 600 1 ?s)) = Some h'"
    "sp_size (particles ?s ! 0) * 0.5 \<le> h' ! nat \<lfloor>sp_x (moved 800 (particles ?s ! 0))\<rfloor>"
    using update_landing [OF inv _ _ _ hit, of "replicate 100 5 @ replicate 700 0" 1 False]
    by auto
  have "1 \<le> h' ! nat ?pX"
    using h'(2) by (simp add: lander_def)
  moreover have "nat ?pX < 800"
    using lander_column by linarith
  then have "replicate 800 (0::real) ! nat ?pX = 0"
    by simp
  ultimately have "h' \<noteq> replicate 800 0"
    by auto
  then show ?thesis
    by (simp add: h'(1))
qed


text \<open>
  Claim C5, as amended. A frame draws the pile before it applies the reset: its calls
  start with the clearing of the canvas and the profile path of the map after decay and
  smoothing, whatever the motion score and the overflow flag are. The reset zeroes the
  map afterwards, at the clear step of the same frame, so a frame that detects a reset
  still draws the pile as it was before the reset.
\<close>

theorem pile_drawn_before_reset:
  assumes "heightMap s = Some hMap"
  shows "take (Suc (length (render_pile width height (smooth width (decay width hMap)))))
           (snd (update isActive width height motionScore s)) =
         ClearRect 0 0 (real width) height
           # render_pile width height (smooth width (decay width hMap)) \<and>
         (motionScore > 0.3 \<or> shouldClearPile width height (Some hMap) \<longrightarrow>
            cleared_field width height motionScore (Some hMap) = Some (replicate (length hMap) 0))"
  using update_draws_pile [OF assms] cleared_field_reset by blast

theorem pile_drawn_before_reset_witness:
  "take 9 (snd (update True 4 100 1
      \<lparr>particles = replicate 300 speck, heightMap = Some [5, 5, 5, 5], rnd = calm\<rparr>)) =
     [ClearRect 0 0 4 100, BeginPath, MoveTo 0 100, LineTo 0 95.02, LineTo 2 95, LineTo 4 100,
      ClosePath, FillStyleGradient 0 (- 50) 0 100, Fill] \<and>
   cleared_field 4 100 1 (Some [5, 5, 5, 5]) = Some [0, 0, 0, 0]"
  using pile_drawn_before_reset [of "\<lparr>particles = replicate 300 speck,
      heightMap = Some [5, 5, 5, 5], rnd = calm\<rparr>" "[5, 5, 5, 5]" 4 100 True 1]
  by (simp only: pile_example_length) (simp add: pile_example)


text \<open>
  Claim C5 as stated fails: the frame below detects a reset (motion score 1), and the
  profile it draws rises to the pile of height 5, not the flat profile of an empty map.
\<close>

theorem render_order_counterexample:
  "take 9 (snd (update True 4 100 1
      \<lparr>particles = replicate 300 speck, heightMap = Some [5, 5, 5, 5], rnd = calm\<rparr>))
     \<noteq> ClearRect 0 0 4 100 # render_pile 4 100 [0, 0, 0, 0]"
proof -
  have "take 9 (snd (update True 4 100 1
      \<lparr>particles = replicate 300 speck, heightMap = Some [5, 5, 5, 5], rnd = calm\<rparr>)) =
     [ClearRect 0 0 4 100, BeginPath, MoveTo 0 100, LineTo 0 95.02, LineTo 2 95, LineTo 4 100,
      ClosePath, FillStyleGradient 0 (- 50) 0 100, Fill]"
    using update_draws_pile [of "\<lparr>particles = replicate 300 speck,
      heightMap = Some [5, 5, 5, 5], rnd = calm\<rparr>" "[5, 5, 5, 5]" 4 100 True 1]
    by (simp only: pile_example_length) (simp add: pile_example)
  then show ?thesis
    by (simp add: render_pile_def profile_from.simps)
qed

section \<open>Frost: the claims about the mask and the gesture\<close>

text \<open>
  Claim C7. Without a reset or a resize the erasure of the mask is monotonic: whatever
  the event of a frame is (a change of the drawing point, which strokes the connecting
  line or stamps the dot of a stroke's start, or an animation frame, which stamps the
  trail of every drip), the opacity of every pixel of the mask grows or stays, stays at
  most 1, and stays 1 once it is 1. Only the reset and resize effect clears the mask.
  The compositing is that of \<open>source-over\<close> with a coverage between 0 and 1.
\<close>

theorem mask_monotone:
  assumes "coverage_ok cov" and "alphas_ok (maskOps s)"
  shows "opacity cov (maskOps s) px \<le> opacity cov (maskOps (frost_event height e s)) px \<and>
         opacity cov (maskOps (frost_event height e s)) px \<le> 1 \<and>
         (opacity cov (maskOps s) px = 1 \<longrightarrow>
            opacity cov (maskOps (frost_event height e s)) px = 1) \<and>
         alphas_ok (maskOps (frost_event height e s)) \<and>
         opacity cov (maskOps (frost_reset s)) px = 0"
proof -
  obtain new where new: "maskOps (frost_event height e s) = maskOps s @ new" "alphas_ok new"
    using frost_event_ops by blast
  have "opacity cov (maskOps s) px \<le> opacity cov (maskOps s @ new) px"
    and "opacity cov (maskOps s @ new) px \<le> 1"
    using opacity_extend [OF assms new(2)] by simp_all
  then show ?thesis
    using new assms(2) by (auto simp: alphas_ok_append opacity_reset)
qed

theorem mask_monotone_witness:
  "coverage_ok full_disc \<and> alphas_ok (maskOps dotted) \<and>
   opacity full_disc (maskOps dotted) (10, 10) = 1 \<and>
   opacity full_disc (maskOps (frost_event 600 (Input (Some (20, 10))) dotted)) (10, 10) = 1 \<and>
   opacity full_disc (maskOps (frost_reset dotted)) (10, 10) = 0"
proof -
  have a: "alphas_ok (maskOps dotted)"
    by (simp add: dotted_ops alphas_ok_def)
  have b: "opacity full_disc (maskOps dotted) (10, 10) = 1"
    by (simp add: dotted_ops opacity_def full_disc_def)
  show ?thesis
    using mask_monotone [OF coverage_ok_full_disc a, of "(10, 10)" 600 "Input (Some (20, 10))"]
      coverage_ok_full_disc a b
    by simp
qed

text \<open>
  Claim C8. Fed the drawing points (10,10), (20,10) and then none, from the mounted
  overlay, the mask receives the dot of the start of the stroke at (10,10) and exactly
  one connecting line, from (10,10) to (20,10), of width 24; animation frames between
  the points change nothing. At the end of the gesture one drip is spawned exactly when
  the first random draw is below 0.4, and none otherwise; the drip starts at height 10,
  within 6 of the column 20, with no horizontal velocity, a downward velocity in
  [0.5, 2) and a life in [20, 50).
\<close>

theorem stroke_continuity:
  "maskOps (fold (frost_event height) gesture (frost_mounted g)) =
     [Paint (Disc 10 10 12) 1, Paint (RoundLine 10 10 20 10 24) 1] \<and>
   strokes (maskOps (fold (frost_event height) gesture (frost_mounted g))) =
     [Paint (RoundLine 10 10 20 10 24) 1] \<and>
   drips (fold (frost_event height) gesture (frost_mounted g)) =
     (if g 0 < 0.4 then [end_drip g] else []) \<and>
   lastPoint (fold (frost_event height) gesture (frost_mounted g)) = None \<and>
   fold (frost_event height)
     (Input (Some (10, 10)) # replicate n Tick @ Input (Some (20, 10)) # replicate k Tick @
      [Input None]) (frost_mounted g) =
   fold (frost_event height) gesture (frost_mounted g) \<and>
   (lastPoint s = None \<longrightarrow>
      maskOps (fold (frost_event height) gesture s) =
        maskOps s @ [Paint (Disc 10 10 12) 1, Paint (RoundLine 10 10 20 10 24) 1] \<and>
      drips (fold (frost_event height) gesture s) =
        drips s @ (if frnd s 0 < 0.4 then [end_drip (frnd s)] else [])) \<and>
   (unit_range g \<longrightarrow>
      14 \<le> d_x (end_drip g) \<and> d_x (end_drip g) < 26 \<and> d_y (end_drip g) = 10 \<and>
      d_vx (end_drip g) = 0 \<and> 0.5 \<le> d_vy (end_drip g) \<and> d_vy (end_drip g) < 2 \<and>
      1 \<le> d_size (end_drip g) \<and> d_size (end_drip g) < 2.5 \<and>
      20 \<le> d_life (end_drip g) \<and> d_life (end_drip g) < 50)"
proof -
  have m: "lastPoint (frost_mounted g) = None"
    by (simp add: frost_mounted_def)
  show ?thesis
    using end_drip_bounds [of g] gesture_with_frames [of height n k g]
    by (simp add: gesture_run [OF m] gesture_run strokes_def frost_mounted_def)
qed

theorem stroke_continuity_witness:
  "lastPoint (frost_mounted calm) = None \<and> unit_range (\<lambda>n. 1 / 4) \<and>
   d_x (end_drip (\<lambda>n. 1 / 4)) < 26 \<and>
   drips (fold (frost_event 600) gesture (frost_mounted (\<lambda>n. 1 / 4))) =
     [\<lparr>d_x = 17, d_y = 10, d_vx = 0, d_vy = 0.875, d_size = 1.375, d_life = 27.5\<rparr>] \<and>
   drips (fold (frost_event 600) gesture (frost_mounted calm)) = [] \<and>
   strokes (maskOps (fold (frost_event 600) gesture (frost_mounted calm))) =
     [Paint (RoundLine 10 10 20 10 24) 1]"
  using stroke_continuity [of 600 "\<lambda>n. 1 / 4" 0 0 "frost_mounted calm"]
    stroke_continuity [of 600 calm 0 0 "frost_mounted calm"]
  by (simp add: end_drip_def calm_apply frost_mounted_def unit_range_def)



end
